theory Spec2Isabelle
  imports Main "HOL-Library.Word"
begin

unbundle bit_operations_syntax

section \<open>Python string operations used by the two ingestion scripts\<close>

text \<open>
  A Python \<open>str\<close> is modelled as a \<open>string\<close>, that is a list of 8-bit characters: the
  UTF-8 bytes of the text, which is also what \<open>qname.encode()\<close> hands to the hash. All
  operations below agree with Python on ASCII text; \<open>str.lower\<close> is modelled for the ASCII
  letters only (bytes above 127 are left unchanged).
\<close>

text \<open>\<open>s.startswith(p)\<close>\<close>

fun startswith :: "string \<Rightarrow> string \<Rightarrow> bool" where
  "startswith s [] = True"
| "startswith [] (p # ps) = False"
| "startswith (c # cs) (p # ps) = (c = p \<and> startswith cs ps)"

text \<open>\<open>sub in s\<close> for two strings: \<open>sub\<close> occurs in \<open>s\<close> as a contiguous substring.\<close>

fun str_in :: "string \<Rightarrow> string \<Rightarrow> bool" where
  "str_in sub [] = (sub = [])"
| "str_in sub (c # cs) = (startswith (c # cs) sub \<or> str_in sub cs)"

text \<open>\<open>s.split(sep)\<close> for a one-character separator: never the empty list.\<close>

fun split_on :: "char \<Rightarrow> string \<Rightarrow> string list" where
  "split_on sep [] = [[]]"
| "split_on sep (c # cs) =
     (if c = sep then [] # split_on sep cs
      else (case split_on sep cs of [] \<Rightarrow> [[c]] | p # ps \<Rightarrow> (c # p) # ps))"

text \<open>\<open>s.replace(old, new)\<close> for one-character \<open>old\<close>.\<close>

definition replace_char :: "char \<Rightarrow> string \<Rightarrow> string \<Rightarrow> string" where
  "replace_char old new s = concat (map (\<lambda>c. if c = old then new else [c]) s)"

text \<open>The regular-expression class \<open>[A-Z]\<close> and \<open>str.lower\<close>.\<close>

definition is_upper :: "char \<Rightarrow> bool" where
  "is_upper c = (65 \<le> (of_char c :: nat) \<and> (of_char c :: nat) \<le> 90)"

definition lower_char :: "char \<Rightarrow> char" where
  "lower_char c = (if is_upper c then char_of ((of_char c :: nat) + 32) else c)"

definition str_lower :: "string \<Rightarrow> string" where
  "str_lower s = map lower_char s"

text \<open>
  \<open>re.sub(r"(?<!^)(?=[A-Z])", "_", name)\<close>: the pattern matches the empty string at every
  position \<open>i\<close> that is not the start of the string and is followed by a character of
  \<open>[A-Z]\<close>; each such match is replaced by an underscore, the characters are kept.
\<close>

definition re_sub_camel :: "string \<Rightarrow> string" where
  "re_sub_camel name =
     concat (map (\<lambda>i. (if i \<noteq> 0 \<and> is_upper (name ! i) then ''_'' else []) @ [name ! i])
                 [0..<length name])"

text \<open>Python truthiness of an optional string: \<open>None\<close> and \<open>""\<close> are false.\<close>

definition truthy :: "string option \<Rightarrow> bool" where
  "truthy x = (case x of None \<Rightarrow> False | Some s \<Rightarrow> s \<noteq> [])"

section \<open>\<open>hashlib.md5\<close> (RFC 1321)\<close>

type_synonym u32 = "32 word"

definition md5_K :: "u32 list" where
  "md5_K =
    [0xd76aa478, 0xe8c7b756, 0x242070db, 0xc1bdceee, 0xf57c0faf, 0x4787c62a, 0xa8304613, 0xfd469501,
     0x698098d8, 0x8b44f7af, 0xffff5bb1, 0x895cd7be, 0x6b901122, 0xfd987193, 0xa679438e, 0x49b40821,
     0xf61e2562, 0xc040b340, 0x265e5a51, 0xe9b6c7aa, 0xd62f105d, 0x02441453, 0xd8a1e681, 0xe7d3fbc8,
     0x21e1cde6, 0xc33707d6, 0xf4d50d87, 0x455a14ed, 0xa9e3e905, 0xfcefa3f8, 0x676f02d9, 0x8d2a4c8a,
     0xfffa3942, 0x8771f681, 0x6d9d6122, 0xfde5380c, 0xa4beea44, 0x4bdecfa9, 0xf6bb4b60, 0xbebfbc70,
     0x289b7ec6, 0xeaa127fa, 0xd4ef3085, 0x04881d05, 0xd9d4d039, 0xe6db99e5, 0x1fa27cf8, 0xc4ac5665,
     0xf4292244, 0x432aff97, 0xab9423a7, 0xfc93a039, 0x655b59c3, 0x8f0ccc92, 0xffeff47d, 0x85845dd1,
     0x6fa87e4f, 0xfe2ce6e0, 0xa3014314, 0x4e0811a1, 0xf7537e82, 0xbd3af235, 0x2ad7d2bb, 0xeb86d391]"

definition md5_S :: "nat list" where
  "md5_S =
    [7, 12, 17, 22, 7, 12, 17, 22, 7, 12, 17, 22, 7, 12, 17, 22,
     5, 9, 14, 20, 5, 9, 14, 20, 5, 9, 14, 20, 5, 9, 14, 20,
     4, 11, 16, 23, 4, 11, 16, 23, 4, 11, 16, 23, 4, 11, 16, 23,
     6, 10, 15, 21, 6, 10, 15, 21, 6, 10, 15, 21, 6, 10, 15, 21]"

text \<open>The \<open>k\<close> low bytes of \<open>n\<close>, least significant first.\<close>

definition le_bytes :: "nat \<Rightarrow> nat \<Rightarrow> nat list" where
  "le_bytes k n = map (\<lambda>i. (n div 256 ^ i) mod 256) [0..<k]"

text \<open>
  Padding: a byte \<open>0x80\<close>, zero bytes up to 56 modulo 64, then the length of the message
  in bits as a 64-bit little-endian number.
\<close>

definition md5_pad :: "nat list \<Rightarrow> nat list" where
  "md5_pad m =
     m @ [128] @ replicate ((119 - length m mod 64) mod 64) 0
       @ le_bytes 8 ((8 * length m) mod 2 ^ 64)"

fun le_words :: "nat list \<Rightarrow> u32 list" where
  "le_words (b0 # b1 # b2 # b3 # bs) =
     word_of_nat (b0 + 256 * b1 + 65536 * b2 + 16777216 * b3) # le_words bs"
| "le_words _ = []"

definition md5_step ::
  "u32 list \<Rightarrow> nat \<Rightarrow> u32 \<times> u32 \<times> u32 \<times> u32 \<Rightarrow> u32 \<times> u32 \<times> u32 \<times> u32" where
  "md5_step M i st =
     (case st of (a, b, c, d) \<Rightarrow>
        let (f, g) =
              (if i < 16 then ((b AND c) OR (NOT b AND d), i)
               else if i < 32 then ((d AND b) OR (NOT d AND c), (5 * i + 1) mod 16)
               else if i < 48 then (b XOR c XOR d, (3 * i + 5) mod 16)
               else (c XOR (b OR NOT d), (7 * i) mod 16));
            f' = f + a + md5_K ! i + M ! g
        in (d, b + word_rotl (md5_S ! i) f', b, c))"

definition md5_block ::
  "u32 \<times> u32 \<times> u32 \<times> u32 \<Rightarrow> nat list \<Rightarrow> u32 \<times> u32 \<times> u32 \<times> u32" where
  "md5_block st blk =
     (case st of (a0, b0, c0, d0) \<Rightarrow>
        case fold (md5_step (le_words blk)) [0..<64] st of (a, b, c, d) \<Rightarrow>
          (a0 + a, b0 + b, c0 + c, d0 + d))"

fun md5_blocks ::
  "nat \<Rightarrow> u32 \<times> u32 \<times> u32 \<times> u32 \<Rightarrow> nat list \<Rightarrow> u32 \<times> u32 \<times> u32 \<times> u32" where
  "md5_blocks 0 st bs = st"
| "md5_blocks (Suc n) st bs = md5_blocks n (md5_block st (take 64 bs)) (drop 64 bs)"

definition hex_digit :: "nat \<Rightarrow> char" where
  "hex_digit n = ''0123456789abcdef'' ! (n mod 16)"

definition hex_byte :: "nat \<Rightarrow> string" where
  "hex_byte b = [hex_digit (b div 16), hex_digit b]"

definition md5_hexdigest :: "string \<Rightarrow> string" where
  "md5_hexdigest s =
     (let p = md5_pad (map of_char s) in
      case md5_blocks (length p div 64) (0x67452301, 0xefcdab89, 0x98badcfe, 0x10325476) p of
        (a, b, c, d) \<Rightarrow>
          concat (map hex_byte (concat (map (\<lambda>w. le_bytes 4 (unat w)) [a, b, c, d]))))"

section \<open>The input graph\<close>

text \<open>
  The input is the JSON object loaded by \<open>json.load\<close>: a dictionary from qname to entity
  record, modelled as the list of its items in iteration order (the keys of a dictionary
  are distinct). An attribute read by \<open>node.get(k)\<close> is \<open>None\<close> when it is absent or
  \<open>null\<close>, and a value of the type the data model gives it otherwise; for the three
  attributes read with a default (\<open>pos\<close>, \<open>relations\<close>, \<open>qualified_name\<close>) \<open>None\<close> is the
  absent attribute.
\<close>

record position =
  pos_start :: "int option"
  pos_end :: "int option"

record relation =
  rel_type :: "string option"
  rel_source :: "string option"
  rel_target :: "string option"
  rel_pos :: "position option"

record node =
  n_name :: "string option"
  n_kind :: "string option"
  n_docstring :: "string option"
  n_filepath :: "string option"
  n_parent_qualified_name :: "string option"
  n_pos :: "position option"
  n_relations :: "relation list option"
  n_code :: "string option"
  n_qualified_name :: "string option"

type_synonym graph = "(string \<times> node) list"

text \<open>\<open>node.get("pos", {}).get("start")\<close> and \<open>.get("end")\<close>.\<close>

definition get_start :: "position option \<Rightarrow> int option" where
  "get_start p = (case p of None \<Rightarrow> None | Some q \<Rightarrow> pos_start q)"

definition get_end :: "position option \<Rightarrow> int option" where
  "get_end p = (case p of None \<Rightarrow> None | Some q \<Rightarrow> pos_end q)"

text \<open>\<open>if x: d[k] = x\<close> for an optional string and for an optional number (0 is false).\<close>

definition if_truthy :: "string option \<Rightarrow> string option" where
  "if_truthy x = (if truthy x then x else None)"

definition if_nonzero :: "int option \<Rightarrow> int option" where
  "if_nonzero x = (case x of None \<Rightarrow> None | Some i \<Rightarrow> if i \<noteq> 0 then Some i else None)"

section \<open>The destination\<close>

text \<open>
  A destination is modelled by the record of the bulk-import calls made on it: the
  collection, the batch, and whether the call succeeded. Whether a call succeeds is decided
  by the destination, as a function of the calls made so far, the collection and the
  batch. A call that does not succeed raises in Python.
\<close>

type_synonym 'd call = "string \<times> 'd list \<times> bool"

type_synonym 'd dest = "'d call list \<Rightarrow> string \<Rightarrow> 'd list \<Rightarrow> bool"

datatype exn = BulkImportError

definition import_bulk :: "'d dest \<Rightarrow> 'd call list \<Rightarrow> string \<Rightarrow> 'd list \<Rightarrow> bool \<times> 'd call list" where
  "import_bulk dest h coll docs = (dest h coll docs, h @ [(coll, docs, dest h coll docs)])"

text \<open>The batches a collection was sent, and the documents it accepted.\<close>

definition attempted :: "'d call list \<Rightarrow> string \<Rightarrow> 'd list" where
  "attempted h coll = concat (map (\<lambda>(c, b, ok). if c = coll then b else []) h)"

definition delivered :: "'d call list \<Rightarrow> string \<Rightarrow> 'd list" where
  "delivered h coll = concat (map (\<lambda>(c, b, ok). if c = coll \<and> ok then b else []) h)"

definition always_ok :: "'d dest" where
  "always_ok h coll docs = True"

section \<open>arango\_ingest.py: the graph destination\<close>

subsection \<open>Constant tables\<close>

text \<open>A value \<open>None\<close> in a table is a key that is present and mapped to Python's \<open>None\<close>.\<close>

definition KIND_TO_COLLECTION :: "(string \<times> string option) list" where
  "KIND_TO_COLLECTION =
    [(''class'', Some ''types''),
     (''function'', Some ''functions''),
     (''async_function'', Some ''functions''),
     (''module'', Some ''modules''),
     (''params_of'', None),
     (''returns'', None),
     (''import'', None),
     (''assignment'', Some ''members''),
     (''augmented_assignment'', Some ''members'')]"

definition REL_TO_EDGE_COLLECTION :: "(string \<times> string option) list" where
  "REL_TO_EDGE_COLLECTION =
    [(''CALLS'', Some ''calls''),
     (''CALLED_BY'', None),
     (''INHERITS_FROM'', Some ''inherits''),
     (''DECORATED_BY'', Some ''decorated_by''),
     (''PARAM_OF'', Some ''param_of''),
     (''RETURNS'', Some ''returns''),
     (''IMPORTS'', Some ''imports''),
     (''CLASS_DEF'', Some ''parent''),
     (''FUNCTION_DEF'', Some ''parent'')]"

definition NODE_COLLECTIONS :: "string list" where
  "NODE_COLLECTIONS = [''functions'', ''types'', ''members'', ''files'', ''modules'']"

text \<open>Each entry: edge collection, from-vertex collections, to-vertex collections.\<close>

definition EDGE_DEFINITIONS :: "(string \<times> string list \<times> string list) list" where
  "EDGE_DEFINITIONS =
    [(''calls'', [''functions''], [''functions'']),
     (''implements'', [''types''], [''types'']),
     (''inherits'', [''types''], [''types'']),
     (''returns'', [''functions''], [''types'']),
     (''param_of'', [''types''], [''functions'']),
     (''parent'', [''functions'', ''members''], [''types'', ''files'', ''modules'']),
     (''imports'', [''files'', ''modules''], [''modules'']),
     (''decorated_by'', [''functions'', ''types''], [''functions''])]"

text \<open>\<open>{e["edge_collection"] for e in EDGE_DEFINITIONS}\<close>\<close>

definition edge_collections :: "string set" where
  "edge_collections = set (map fst EDGE_DEFINITIONS)"

subsection \<open>\<open>make_key\<close>\<close>

definition make_key :: "string \<Rightarrow> string" where
  "make_key qname = take 16 (md5_hexdigest qname)"

subsection \<open>\<open>determine_collection\<close>\<close>

definition determine_collection :: "node \<Rightarrow> string option" where
  "determine_collection nd =
     (let kind = n_kind nd; parent_qname = n_parent_qualified_name nd in
      case kind of
        None \<Rightarrow> None
      | Some k \<Rightarrow>
          (case map_of KIND_TO_COLLECTION k of
             None \<Rightarrow> None
           | Some coll \<Rightarrow>
               if truthy coll then
                 (if k = ''assignment'' \<or> k = ''augmented_assignment'' then
                    (case parent_qname of
                       None \<Rightarrow> None
                     | Some p \<Rightarrow>
                         if p \<noteq> [] \<and> \<not> str_in ''.assignment.'' p then Some ''members''
                         else None)
                  else coll)
               else None))"

subsection \<open>\<open>ingest_nodes\<close>\<close>

record node_doc =
  d_key :: string
  d_qname :: string
  d_name :: "string option"
  d_kind :: "string option"
  d_doc :: "string option"
  d_filepath :: "string option"
  d_namespace :: "string option"
  d_language :: string
  d_pos :: "int option"
  d_end :: "int option"
  d_is_async :: "bool option"
  d_is_method :: "bool option"

text \<open>
  The document built in the loop body for an entity classified into \<open>collection\<close>.
  \<open>data.get(parent, {}).get("kind")\<close> is the kind of the parent entity when there is one.
\<close>

definition is_method :: "graph \<Rightarrow> node \<Rightarrow> string \<Rightarrow> bool" where
  "is_method data nd collection =
     (collection = ''functions'' \<and>
      (case n_parent_qualified_name nd of
         None \<Rightarrow> False
       | Some p \<Rightarrow>
           p \<noteq> [] \<and>
           (case map_of data p of None \<Rightarrow> False | Some parent \<Rightarrow> n_kind parent = Some ''class'')))"

definition make_node_doc :: "graph \<Rightarrow> string \<Rightarrow> node \<Rightarrow> string \<Rightarrow> node_doc" where
  "make_node_doc data qname nd collection =
     \<lparr>d_key = make_key qname,
      d_qname = qname,
      d_name = n_name nd,
      d_kind = (if n_kind nd = Some ''async_function'' then Some ''function'' else n_kind nd),
      d_doc = n_docstring nd,
      d_filepath = n_filepath nd,
      d_namespace = n_parent_qualified_name nd,
      d_language = ''python'',
      d_pos = get_start (n_pos nd),
      d_end = get_end (n_pos nd),
      d_is_async = (if n_kind nd = Some ''async_function'' then Some True else None),
      d_is_method = (if is_method data nd collection then Some True else None)\<rparr>"

type_synonym routing = "string \<rightharpoonup> string"

text \<open>
  The main loop. The state is the routing table, the batch of every collection and the
  calls made on the destination. The bulk import is not guarded here: when it raises, the
  exception leaves the loop, and the function.
\<close>

fun nodes_loop ::
  "nat \<Rightarrow> node_doc dest \<Rightarrow> graph \<Rightarrow> graph \<Rightarrow>
   routing \<times> (string \<Rightarrow> node_doc list) \<times> node_doc call list \<Rightarrow>
   (exn + routing \<times> (string \<Rightarrow> node_doc list)) \<times> node_doc call list" where
  "nodes_loop batch_size dest data [] (qname_to_collection, batches, h) =
     (Inr (qname_to_collection, batches), h)"
| "nodes_loop batch_size dest data ((qname, nd) # rest) (qname_to_collection, batches, h) =
     (case determine_collection nd of
        None \<Rightarrow> nodes_loop batch_size dest data rest (qname_to_collection, batches, h)
      | Some collection \<Rightarrow>
          if collection = [] then
            nodes_loop batch_size dest data rest (qname_to_collection, batches, h)
          else
            (let rt = qname_to_collection(qname \<mapsto> collection);
                 docs = batches collection @ [make_node_doc data qname nd collection]
             in if length docs \<ge> batch_size then
                  (case import_bulk dest h collection docs of
                     (True, h') \<Rightarrow>
                       nodes_loop batch_size dest data rest (rt, batches(collection := []), h')
                   | (False, h') \<Rightarrow> (Inl BulkImportError, h'))
                else nodes_loop batch_size dest data rest (rt, batches(collection := docs), h)))"

text \<open>"Flush remaining": over the collections in the order of \<open>NODE_COLLECTIONS\<close>.\<close>

fun flush_nodes ::
  "node_doc dest \<Rightarrow> string list \<Rightarrow> (string \<Rightarrow> node_doc list) \<Rightarrow> node_doc call list \<Rightarrow>
   (exn + unit) \<times> node_doc call list" where
  "flush_nodes dest [] batches h = (Inr (), h)"
| "flush_nodes dest (collection # cs) batches h =
     (if batches collection \<noteq> [] then
        (case import_bulk dest h collection (batches collection) of
           (True, h') \<Rightarrow> flush_nodes dest cs batches h'
         | (False, h') \<Rightarrow> (Inl BulkImportError, h'))
      else flush_nodes dest cs batches h)"

definition ingest_nodes_with ::
  "nat \<Rightarrow> node_doc dest \<Rightarrow> graph \<Rightarrow> (exn + routing) \<times> node_doc call list" where
  "ingest_nodes_with batch_size dest data =
     (case nodes_loop batch_size dest data data (Map.empty, (\<lambda>c. []), []) of
        (Inl e, h) \<Rightarrow> (Inl e, h)
      | (Inr (qname_to_collection, batches), h) \<Rightarrow>
          (case flush_nodes dest NODE_COLLECTIONS batches h of
             (Inl e, h') \<Rightarrow> (Inl e, h')
           | (Inr u, h') \<Rightarrow> (Inr qname_to_collection, h')))"

text \<open>\<open>ingest_nodes\<close> itself: the batch size is the local constant 1000.\<close>

definition ingest_nodes :: "node_doc dest \<Rightarrow> graph \<Rightarrow> (exn + routing) \<times> node_doc call list" where
  "ingest_nodes dest data = ingest_nodes_with 1000 dest data"

subsection \<open>\<open>ingest_edges\<close>\<close>

record edge_doc =
  e_key :: string
  e_from :: string
  e_to :: string
  e_call_site_pos :: "int option"

text \<open>
  Constructor calls (lines 199-207): for a call edge whose target is routed to \<open>types\<close>
  the target becomes \<open>target + ".__init__"\<close> with the collection the routing table gives it;
  \<open>None\<close> is the \<open>continue\<close> taken when that qname is not in the routing table.
\<close>

definition redirect_init ::
  "routing \<Rightarrow> string \<Rightarrow> string \<Rightarrow> string option \<Rightarrow> (string \<times> string option) option" where
  "redirect_init qname_to_coll edge_coll target target_coll =
     (if edge_coll = ''calls'' \<and> target_coll = Some ''types'' then
        (let init_qname = target @ ''.__init__'' in
         if qname_to_coll init_qname \<noteq> None then Some (init_qname, qname_to_coll init_qname)
         else None)
      else Some (target, target_coll))"

text \<open>Parent edges (lines 209-213): a target that is a module of the input is in \<open>modules\<close>.\<close>

definition infer_parent :: "graph \<Rightarrow> string \<Rightarrow> string \<Rightarrow> string option \<Rightarrow> string option" where
  "infer_parent data edge_coll target target_coll =
     (if edge_coll = ''parent'' \<and> \<not> truthy target_coll then
        (case map_of data target of
           None \<Rightarrow> target_coll
         | Some t \<Rightarrow> if n_kind t = Some ''module'' then Some ''modules'' else target_coll)
      else target_coll)"

text \<open>The edge document (lines 218-228).\<close>

definition make_edge_doc ::
  "relation \<Rightarrow> string \<Rightarrow> string \<Rightarrow> string \<Rightarrow> string \<Rightarrow> string \<Rightarrow> string \<Rightarrow> edge_doc" where
  "make_edge_doc rel edge_coll rtype source source_coll target target_coll =
     \<lparr>e_key = make_key (source @ '':'' @ target @ '':'' @ rtype),
      e_from = source_coll @ ''/'' @ make_key source,
      e_to = target_coll @ ''/'' @ make_key target,
      e_call_site_pos =
        (if edge_coll = ''calls'' then if_nonzero (get_start (rel_pos rel)) else None)\<rparr>"

text \<open>
  The body of the inner loop up to the point where the edge document is appended to its
  batch: \<open>None\<close> where the source says \<open>continue\<close>, otherwise the edge collection and the
  document.
\<close>

definition resolve_endpoints ::
  "graph \<Rightarrow> routing \<Rightarrow> relation \<Rightarrow> string \<Rightarrow> string \<Rightarrow> string \<Rightarrow> string \<Rightarrow>
   (string \<times> edge_doc) option" where
  "resolve_endpoints data qname_to_coll rel rtype edge_coll source target0 =
     (let source_coll = qname_to_coll source;
          target_coll0 = qname_to_coll target0
      in case redirect_init qname_to_coll edge_coll target0 target_coll0 of
           None \<Rightarrow> None
         | Some (target, target_coll1) \<Rightarrow>
             (let target_coll = infer_parent data edge_coll target target_coll1
              in if \<not> truthy source_coll \<or> \<not> truthy target_coll then None
                 else
                   (case (source_coll, target_coll) of
                      (Some sc, Some tc) \<Rightarrow>
                        Some (edge_coll, make_edge_doc rel edge_coll rtype source sc target tc)
                    | _ \<Rightarrow> None)))"

definition resolve_relation :: "graph \<Rightarrow> routing \<Rightarrow> relation \<Rightarrow> (string \<times> edge_doc) option" where
  "resolve_relation data qname_to_coll rel =
     (if \<not> truthy (rel_type rel) \<or> \<not> truthy (rel_source rel) \<or> \<not> truthy (rel_target rel)
      then None
      else
        (case (rel_type rel, rel_source rel, rel_target rel) of
           (Some rtype, Some source, Some target0) \<Rightarrow>
             (case map_of REL_TO_EDGE_COLLECTION rtype of
                None \<Rightarrow> None
              | Some edge_coll_opt \<Rightarrow>
                  (case edge_coll_opt of
                     None \<Rightarrow> None
                   | Some edge_coll \<Rightarrow>
                       if edge_coll = [] then None
                       else resolve_endpoints data qname_to_coll rel rtype edge_coll source target0))
         | _ \<Rightarrow> None))"

text \<open>
  Appending to the batch and flushing it at the threshold. Here the bulk import is
  guarded: a failure prints a warning (the call is in the record with outcome \<open>False\<close>),
  the batch is emptied and the loop goes on.
\<close>

definition edges_step ::
  "nat \<Rightarrow> edge_doc dest \<Rightarrow> graph \<Rightarrow> routing \<Rightarrow> relation \<Rightarrow>
   (string \<Rightarrow> edge_doc list) \<times> edge_doc call list \<Rightarrow>
   (string \<Rightarrow> edge_doc list) \<times> edge_doc call list" where
  "edges_step batch_size dest data qname_to_coll rel st =
     (case st of (batches, h) \<Rightarrow>
        (case resolve_relation data qname_to_coll rel of
           None \<Rightarrow> (batches, h)
         | Some (edge_coll, doc) \<Rightarrow>
             (let docs = batches edge_coll @ [doc]
              in if length docs \<ge> batch_size then
                   (batches(edge_coll := []), snd (import_bulk dest h edge_coll docs))
                 else (batches(edge_coll := docs), h))))"

text \<open>\<open>node.get("relations", [])\<close>\<close>

definition relations_of :: "node \<Rightarrow> relation list" where
  "relations_of nd = (case n_relations nd of None \<Rightarrow> [] | Some rs \<Rightarrow> rs)"

fun relations_loop ::
  "nat \<Rightarrow> edge_doc dest \<Rightarrow> graph \<Rightarrow> routing \<Rightarrow> relation list \<Rightarrow>
   (string \<Rightarrow> edge_doc list) \<times> edge_doc call list \<Rightarrow>
   (string \<Rightarrow> edge_doc list) \<times> edge_doc call list" where
  "relations_loop batch_size dest data qname_to_coll [] st = st"
| "relations_loop batch_size dest data qname_to_coll (rel # rels) st =
     relations_loop batch_size dest data qname_to_coll rels
       (edges_step batch_size dest data qname_to_coll rel st)"

fun edges_loop ::
  "nat \<Rightarrow> edge_doc dest \<Rightarrow> graph \<Rightarrow> routing \<Rightarrow> graph \<Rightarrow>
   (string \<Rightarrow> edge_doc list) \<times> edge_doc call list \<Rightarrow>
   (string \<Rightarrow> edge_doc list) \<times> edge_doc call list" where
  "edges_loop batch_size dest data qname_to_coll [] st = st"
| "edges_loop batch_size dest data qname_to_coll ((qname, nd) # rest) st =
     edges_loop batch_size dest data qname_to_coll rest
       (relations_loop batch_size dest data qname_to_coll (relations_of nd) st)"

fun flush_edges ::
  "edge_doc dest \<Rightarrow> string list \<Rightarrow> (string \<Rightarrow> edge_doc list) \<Rightarrow> edge_doc call list \<Rightarrow>
   edge_doc call list" where
  "flush_edges dest [] batches h = h"
| "flush_edges dest (edge_coll # cs) batches h =
     (if batches edge_coll \<noteq> [] then
        flush_edges dest cs batches (snd (import_bulk dest h edge_coll (batches edge_coll)))
      else flush_edges dest cs batches h)"

text \<open>
  The batches are a dictionary built from a Python set of the edge collection names, whose
  iteration order the language does not fix: \<open>order\<close> is that order, a duplicate-free
  enumeration of \<open>edge_collections\<close>.
\<close>

definition ingest_edges_with ::
  "nat \<Rightarrow> string list \<Rightarrow> edge_doc dest \<Rightarrow> graph \<Rightarrow> routing \<Rightarrow> edge_doc call list" where
  "ingest_edges_with batch_size order dest data qname_to_coll =
     (case edges_loop batch_size dest data qname_to_coll data ((\<lambda>c. []), []) of
        (batches, h) \<Rightarrow> flush_edges dest order batches h)"

definition ingest_edges :: "string list \<Rightarrow> edge_doc dest \<Rightarrow> graph \<Rightarrow> routing \<Rightarrow> edge_doc call list" where
  "ingest_edges order dest data qname_to_coll = ingest_edges_with 1000 order dest data qname_to_coll"

text \<open>
  The part of \<open>main\<close> after the set-up: nodes first, then edges with the routing table the
  node phase returned. An exception of the node phase ends the run.
\<close>

definition arango_run ::
  "nat \<Rightarrow> string list \<Rightarrow> node_doc dest \<Rightarrow> edge_doc dest \<Rightarrow> graph \<Rightarrow>
   (exn + unit) \<times> node_doc call list \<times> edge_doc call list" where
  "arango_run batch_size order ndest edest data =
     (case ingest_nodes_with batch_size ndest data of
        (Inl e, hn) \<Rightarrow> (Inl e, hn, [])
      | (Inr qname_to_coll, hn) \<Rightarrow>
          (Inr (), hn, ingest_edges_with batch_size order edest data qname_to_coll))"

section \<open>typesense\_ingest.py: the search destination\<close>

definition INDEXABLE_KINDS :: "string set" where
  "INDEXABLE_KINDS = {''class'', ''function'', ''async_function'', ''module'', ''assignment''}"

subsection \<open>\<open>make_name_variants\<close>\<close>

definition make_name_variants :: "string option \<Rightarrow> string list" where
  "make_name_variants name_opt =
     (case name_opt of
        None \<Rightarrow> []
      | Some name \<Rightarrow>
          if name = [] then []
          else
            (let variants0 = [name];
                 lower = str_lower name;
                 variants1 = (if lower \<notin> set variants0 then variants0 @ [lower] else variants0);
                 snake = str_lower (re_sub_camel name);
                 variants2 = (if snake \<notin> set variants1 then variants1 @ [snake] else variants1);
                 no_underscore = replace_char (CHR ''_'') [] name;
                 variants3 =
                   (if no_underscore \<notin> set variants2 then variants2 @ [no_underscore]
                    else variants2)
             in variants3))"

subsection \<open>\<open>should_index\<close>\<close>

text \<open>
  The markers are looked for in the record's own attribute \<open>qualified_name\<close>, with the empty
  string as the default of an absent attribute.
\<close>

definition should_index :: "node \<Rightarrow> bool" where
  "should_index nd =
     (case n_kind nd of
        None \<Rightarrow> False
      | Some kind \<Rightarrow>
          if kind \<notin> INDEXABLE_KINDS then False
          else
            (let qname = (case n_qualified_name nd of None \<Rightarrow> [] | Some q \<Rightarrow> q)
             in if str_in ''.param.'' qname \<or> str_in ''.return'' qname \<or> str_in ''.yields.'' qname
                then False
                else True))"

subsection \<open>\<open>ingest_documents\<close>\<close>

record search_doc =
  s_id :: string
  s_qname :: string
  s_name :: string
  s_name_variants :: "string list"
  s_kind :: string
  s_language :: string
  s_code :: "string option"
  s_doc :: "string option"
  s_filepath :: "string option"
  s_namespace :: "string option"
  s_pos :: "int option"
  s_end :: "int option"

text \<open>\<open>node.get("name") or qname.split(".")[-1]\<close>\<close>

definition doc_name :: "string \<Rightarrow> node \<Rightarrow> string" where
  "doc_name qname nd =
     (if truthy (n_name nd) then (case n_name nd of Some n \<Rightarrow> n | None \<Rightarrow> [])
      else last (split_on (CHR ''.'') qname))"

definition make_search_doc :: "string \<Rightarrow> node \<Rightarrow> search_doc" where
  "make_search_doc qname nd =
     (let name = doc_name qname nd in
      \<lparr>s_id = replace_char (CHR ''.'') ''_'' (replace_char (CHR ''/'') ''_'' qname),
       s_qname = qname,
       s_name = name,
       s_name_variants = make_name_variants (Some name),
       s_kind = (case n_kind nd of None \<Rightarrow> ''unknown'' | Some k \<Rightarrow> k),
       s_language = ''python'',
       s_code = if_truthy (n_code nd),
       s_doc = if_truthy (n_docstring nd),
       s_filepath = if_truthy (n_filepath nd),
       s_namespace = if_truthy (n_parent_qualified_name nd),
       s_pos = if_nonzero (get_start (n_pos nd)),
       s_end = if_nonzero (get_end (n_pos nd))\<rparr>)"

text \<open>
  The loop: the state is the batch, the count of indexed documents and the calls made. A
  failed import prints a warning, leaves the count as it is and empties the batch.
\<close>

fun documents_loop ::
  "nat \<Rightarrow> search_doc dest \<Rightarrow> string \<Rightarrow> graph \<Rightarrow>
   search_doc list \<times> nat \<times> search_doc call list \<Rightarrow>
   search_doc list \<times> nat \<times> search_doc call list" where
  "documents_loop batch_size dest collection_name [] st = st"
| "documents_loop batch_size dest collection_name ((qname, nd) # rest) (batch, total_indexed, h) =
     (if \<not> should_index nd then
        documents_loop batch_size dest collection_name rest (batch, total_indexed, h)
      else
        (let docs = batch @ [make_search_doc qname nd]
         in if length docs \<ge> batch_size then
              (case import_bulk dest h collection_name docs of
                 (True, h') \<Rightarrow>
                   documents_loop batch_size dest collection_name rest
                     ([], total_indexed + length docs, h')
               | (False, h') \<Rightarrow>
                   documents_loop batch_size dest collection_name rest ([], total_indexed, h'))
            else documents_loop batch_size dest collection_name rest (docs, total_indexed, h)))"

definition ingest_documents_with ::
  "nat \<Rightarrow> search_doc dest \<Rightarrow> graph \<Rightarrow> string \<Rightarrow> nat \<times> search_doc call list" where
  "ingest_documents_with batch_size dest data collection_name =
     (case documents_loop batch_size dest collection_name data ([], 0, []) of
        (batch, total_indexed, h) \<Rightarrow>
          if batch \<noteq> [] then
            (case import_bulk dest h collection_name batch of
               (True, h') \<Rightarrow> (total_indexed + length batch, h')
             | (False, h') \<Rightarrow> (total_indexed, h'))
          else (total_indexed, h))"

text \<open>\<open>ingest_documents\<close> itself: the batch size is the local constant 100.\<close>

definition ingest_documents :: "search_doc dest \<Rightarrow> graph \<Rightarrow> string \<Rightarrow> nat \<times> search_doc call list" where
  "ingest_documents dest data collection_name = ingest_documents_with 100 dest data collection_name"

section \<open>The documents of an input\<close>

text \<open>
  The documents an input gives rise to, written as comprehensions over the input; the
  theorems relate the loops above to them.
\<close>

text \<open>The node documents of the entities classified into a collection, in input order.\<close>

definition classified_docs :: "graph \<Rightarrow> graph \<Rightarrow> string \<Rightarrow> node_doc list" where
  "classified_docs data items coll =
     map (\<lambda>(qname, nd). make_node_doc data qname nd coll)
       (filter (\<lambda>(qname, nd). determine_collection nd = Some coll) items)"

text \<open>The routing table of an input: the collection of every entity that has one.\<close>

definition routing_of :: "graph \<Rightarrow> routing" where
  "routing_of data qname =
     (case map_of data qname of None \<Rightarrow> None | Some nd \<Rightarrow> determine_collection nd)"

text \<open>All relations of the input, in the order the nested loops visit them.\<close>

definition all_relations :: "graph \<Rightarrow> relation list" where
  "all_relations items = concat (map (\<lambda>(qname, nd). relations_of nd) items)"

text \<open>The edge documents resolved into an edge collection, in that order.\<close>

definition resolved_edges :: "graph \<Rightarrow> routing \<Rightarrow> relation list \<Rightarrow> string \<Rightarrow> edge_doc list" where
  "resolved_edges data qname_to_coll rels coll =
     concat (map (\<lambda>rel. case resolve_relation data qname_to_coll rel of
                           None \<Rightarrow> []
                         | Some (c, e) \<Rightarrow> if c = coll then [e] else []) rels)"

text \<open>The search documents of the entities that pass \<open>should_index\<close>, in input order.\<close>

definition indexed_docs :: "graph \<Rightarrow> search_doc list" where
  "indexed_docs items =
     map (\<lambda>(qname, nd). make_search_doc qname nd) (filter (\<lambda>(qname, nd). should_index nd) items)"

text \<open>All documents a destination was sent, and the storage keys among them.\<close>

definition sent :: "'d call list \<Rightarrow> 'd list" where
  "sent h = concat (map (\<lambda>(c, b, ok). b) h)"

definition node_keys :: "node_doc call list \<Rightarrow> string set" where
  "node_keys h = set (map d_key (sent h))"

definition edge_keys :: "edge_doc call list \<Rightarrow> string set" where
  "edge_keys h = set (map e_key (sent h))"


text \<open>The words of the specification for the name variants and the fallback name.\<close>



text \<open>The part of a qname after its last dot; the whole qname when it has no dot.\<close>

definition after_last_dot :: "string \<Rightarrow> string" where
  "after_last_dot qname = rev (takeWhile (\<lambda>c. c \<noteq> CHR ''.'') (rev qname))"

section \<open>Example inputs\<close>

text \<open>An entity with a kind, a parent and relations, and nothing else; a relation without a position.\<close>

definition mk_node :: "string \<Rightarrow> string option \<Rightarrow> relation list \<Rightarrow> node" where
  "mk_node kind parent rels =
     \<lparr>n_name = None, n_kind = Some kind, n_docstring = None, n_filepath = None,
      n_parent_qualified_name = parent, n_pos = None, n_relations = Some rels,
      n_code = None, n_qualified_name = None\<rparr>"

definition mk_rel :: "string \<Rightarrow> string \<Rightarrow> string \<Rightarrow> relation" where
  "mk_rel rtype source target =
     \<lparr>rel_type = Some rtype, rel_source = Some source, rel_target = Some target, rel_pos = None\<rparr>"

text \<open>Inputs and destinations used in the examples below.\<close>

definition ctor_assigned_graph :: graph where
  "ctor_assigned_graph =
     [(''m.C'', mk_node ''class'' (Some ''m'') []),
      (''m.C.__init__'', mk_node ''assignment'' (Some ''m.C'') []),
      (''m.f'', mk_node ''function'' (Some ''m'') [mk_rel ''CALLS'' ''m.f'' ''m.C''])]"


definition call_graph :: graph where
  "call_graph =
     [(''m.f'', mk_node ''function'' (Some ''m'') [mk_rel ''CALLS'' ''m.f'' ''m.g'']),
      (''m.g'', mk_node ''function'' (Some ''m'') []),
      (''m.C'', mk_node ''class'' (Some ''m'') [])]"

definition reject_functions :: "node_doc dest" where
  "reject_functions h coll docs = (coll \<noteq> ''functions'')"

definition reject_all :: "edge_doc dest" where
  "reject_all h coll docs = False"

definition edge_order :: "string list" where
  "edge_order = map fst EDGE_DEFINITIONS"

definition three_functions :: graph where
  "three_functions =
     [(''m.a'', mk_node ''function'' (Some ''m'') [mk_rel ''CALLS'' ''m.a'' ''m.b'',
                                                   mk_rel ''CALLS'' ''m.a'' ''m.c'',
                                                   mk_rel ''CALLS'' ''m.a'' ''m.a'']),
      (''m.b'', mk_node ''function'' (Some ''m'') []),
      (''m.c'', mk_node ''function'' (Some ''m'') [])]"

section \<open>Lemmas\<close>

subsection \<open>String operations\<close>


lemma split_on_nonempty: "split_on sep s \<noteq> []"
  by (induction s) (auto split: list.splits)

lemma split_on_no_sep: "sep \<notin> set s \<Longrightarrow> split_on sep s = [s]"
  by (induction s) auto

lemma length_split_on: "length (split_on sep s) = Suc (length (filter (\<lambda>c. c = sep) s))"
  by (induction s) (auto split: list.splits)

lemma last_split_on_append: "last (split_on sep (a @ sep # b)) = last (split_on sep b)"
proof (induction a)
  case Nil
  show ?case by (simp add: split_on_nonempty)
next
  case (Cons c a)
  show ?case
  proof (cases "c = sep")
    case True
    then show ?thesis using Cons by (simp add: split_on_nonempty)
  next
    case False
    obtain p ps where sp: "split_on sep (a @ sep # b) = p # ps"
      using split_on_nonempty[of sep "a @ sep # b"] by (cases "split_on sep (a @ sep # b)") auto
    have "length (split_on sep (a @ sep # b)) \<ge> 2"
      by (simp add: length_split_on)
    with sp have "ps \<noteq> []" by auto
    with sp False Cons show ?thesis by simp
  qed
qed

lemma last_split_on: "last (split_on sep s) = rev (takeWhile (\<lambda>c. c \<noteq> sep) (rev s))"
proof (cases "sep \<in> set s")
  case False
  then have tw: "takeWhile (\<lambda>c. c \<noteq> sep) (rev s) = rev s"
    by (auto simp: takeWhile_eq_all_conv)
  show ?thesis
    unfolding tw using False by (simp add: split_on_no_sep)
next
  case True
  then obtain a b where s: "s = a @ sep # b" and b: "sep \<notin> set b"
    by (meson split_list_last)
  have "takeWhile (\<lambda>c. c \<noteq> sep) (rev b @ sep # rev a) = rev b"
    using b by (auto simp: takeWhile_tail)
  then show ?thesis
    using s b by (simp add: last_split_on_append split_on_no_sep)
qed

lemma last_split_dot: "last (split_on (CHR ''.'') qname) = after_last_dot qname"
  by (simp add: after_last_dot_def last_split_on)






text \<open>The substring test is the usual one.\<close>

lemma startswith_iff: "startswith s p \<longleftrightarrow> (\<exists>b. s = p @ b)"
  by (induction s p rule: startswith.induct) auto

lemma str_in_iff: "str_in sub s \<longleftrightarrow> (\<exists>a b. s = a @ sub @ b)"
proof (induction s)
  case Nil
  show ?case by auto
next
  case (Cons c cs)
  show ?case
  proof
    assume "str_in sub (c # cs)"
    then consider "startswith (c # cs) sub" | "str_in sub cs" by auto
    then show "\<exists>a b. c # cs = a @ sub @ b"
    proof cases
      case 1
      then obtain b where "c # cs = sub @ b" unfolding startswith_iff ..
      then have "c # cs = [] @ sub @ b" by simp
      then show ?thesis by blast
    next
      case 2
      with Cons obtain a b where "cs = a @ sub @ b" by auto
      then have "c # cs = (c # a) @ sub @ b" by simp
      then show ?thesis by blast
    qed
  next
    assume "\<exists>a b. c # cs = a @ sub @ b"
    then obtain a b where ab: "c # cs = a @ sub @ b" by auto
    show "str_in sub (c # cs)"
    proof (cases a)
      case Nil
      with ab have "startswith (c # cs) sub" unfolding startswith_iff by auto
      then show ?thesis by simp
    next
      case (Cons x xs)
      with ab have "cs = xs @ sub @ b" by simp
      with Cons.IH have "str_in sub cs" by blast
      then show ?thesis by simp
    qed
  qed
qed

subsection \<open>Calls on a destination; the edge loops\<close>


lemma attempted_Nil: "attempted [] c = []"
  by (simp add: attempted_def)

lemma attempted_snoc:
  "attempted (h @ [(c, b, ok)]) c' = attempted h c' @ (if c = c' then b else [])"
  by (simp add: attempted_def)

lemma delivered_Nil: "delivered [] c = []"
  by (simp add: delivered_def)

lemma delivered_snoc:
  "delivered (h @ [(c, b, ok)]) c' = delivered h c' @ (if c = c' \<and> ok then b else [])"
  by (simp add: delivered_def)

lemma sent_snoc: "sent (h @ [(c, b, ok)]) = sent h @ b"
  by (simp add: sent_def)

lemma set_sent: "set (sent h) = (\<Union>c. set (attempted h c))"
  by (induction h) (auto simp: sent_def attempted_def)

lemma import_bulk_eq:
  "import_bulk dest h c b = (dest h c b, h @ [(c, b, dest h c b)])"
  by (simp add: import_bulk_def)

lemma all_ok_delivered:
  "\<forall>x\<in>set h. snd (snd x) \<Longrightarrow> delivered h c = attempted h c"
  by (induction h) (auto simp: delivered_def attempted_def)

lemma resolved_edges_Nil: "resolved_edges data rt [] c = []"
  by (simp add: resolved_edges_def)

lemma resolved_edges_append:
  "resolved_edges data rt (xs @ ys) c = resolved_edges data rt xs c @ resolved_edges data rt ys c"
  by (simp add: resolved_edges_def)

lemma resolved_edges_Cons:
  "resolved_edges data rt (x # xs) c =
     (case resolve_relation data rt x of None \<Rightarrow> [] | Some (c', e) \<Rightarrow> if c' = c then [e] else [])
       @ resolved_edges data rt xs c"
  by (simp add: resolved_edges_def)

lemma edges_step_inv:
  "edges_step B dest data rt rel (batches, h) = (batches', h') \<Longrightarrow>
   attempted h' c @ batches' c = attempted h c @ batches c @ resolved_edges data rt [rel] c"
  by (auto simp: edges_step_def import_bulk_eq attempted_snoc resolved_edges_Cons resolved_edges_Nil
        Let_def split: option.splits if_splits prod.splits)

lemma relations_loop_inv:
  "relations_loop B dest data rt rels (batches, h) = (batches', h') \<Longrightarrow>
   attempted h' c @ batches' c = attempted h c @ batches c @ resolved_edges data rt rels c"
proof (induction rels arbitrary: batches h)
  case Nil
  then show ?case by (simp add: resolved_edges_Nil)
next
  case (Cons rel rels)
  obtain b1 h1 where s: "edges_step B dest data rt rel (batches, h) = (b1, h1)"
    by (cases "edges_step B dest data rt rel (batches, h)") auto
  from Cons.prems s have "relations_loop B dest data rt rels (b1, h1) = (batches', h')" by simp
  from Cons.IH[OF this] edges_step_inv[OF s, of c]
  show ?case
    using resolved_edges_append[of data rt "[rel]" rels c] by simp
qed

lemma all_relations_Cons:
  "all_relations ((q, nd) # items) = relations_of nd @ all_relations items"
  by (simp add: all_relations_def)

lemma edges_loop_inv:
  "edges_loop B dest data rt items (batches, h) = (batches', h') \<Longrightarrow>
   attempted h' c @ batches' c =
     attempted h c @ batches c @ resolved_edges data rt (all_relations items) c"
proof (induction items arbitrary: batches h)
  case Nil
  then show ?case by (simp add: resolved_edges_Nil all_relations_def)
next
  case (Cons x items)
  obtain q nd where x: "x = (q, nd)" by (cases x)
  obtain b1 h1 where s: "relations_loop B dest data rt (relations_of nd) (batches, h) = (b1, h1)"
    by (cases "relations_loop B dest data rt (relations_of nd) (batches, h)") auto
  from Cons.prems x s have "edges_loop B dest data rt items (b1, h1) = (batches', h')" by simp
  from Cons.IH[OF this] relations_loop_inv[OF s, of c]
  show ?case
    by (simp add: x all_relations_Cons resolved_edges_append)
qed

lemma flush_edges_attempted:
  "distinct cs \<Longrightarrow>
   attempted (flush_edges dest cs batches h) c =
     attempted h c @ (if c \<in> set cs then batches c else [])"
  by (induction cs arbitrary: h) (auto simp: import_bulk_eq attempted_snoc)

lemma map_of_REL_cases:
  "map_of REL_TO_EDGE_COLLECTION rtype = Some (Some ec) \<Longrightarrow>
   ec \<in> {''calls'', ''inherits'', ''decorated_by'', ''param_of'', ''returns'', ''imports'', ''parent''}"
  by (auto simp: REL_TO_EDGE_COLLECTION_def split: if_splits)

lemma resolve_endpoints_coll:
  "resolve_endpoints data rt rel rtype ec source target0 = Some (c, e) \<Longrightarrow> c = ec"
  by (auto simp: resolve_endpoints_def Let_def split: option.splits if_splits prod.splits)

lemma resolve_relation_coll:
  "resolve_relation data rt rel = Some (c, e) \<Longrightarrow>
   c \<in> {''calls'', ''inherits'', ''decorated_by'', ''param_of'', ''returns'', ''imports'', ''parent''}"
  unfolding resolve_relation_def
  by (auto split: option.splits if_splits prod.splits dest!: resolve_endpoints_coll map_of_REL_cases)

lemma resolve_relation_edge_collections:
  "resolve_relation data rt rel = Some (c, e) \<Longrightarrow> c \<in> edge_collections"
  by (drule resolve_relation_coll) (auto simp: edge_collections_def EDGE_DEFINITIONS_def)

lemma resolved_edges_outside:
  "c \<notin> edge_collections \<Longrightarrow> resolved_edges data rt rels c = []"
  by (induction rels)
     (auto simp: resolved_edges_Cons resolved_edges_Nil split: option.splits
           dest: resolve_relation_edge_collections)

lemma ingest_edges_attempted:
  assumes "distinct order" "set order = edge_collections"
  shows "attempted (ingest_edges_with B order dest data rt) c
           = resolved_edges data rt (all_relations data) c"
proof -
  obtain batches h where l: "edges_loop B dest data rt data ((\<lambda>c. []), []) = (batches, h)"
    by (cases "edges_loop B dest data rt data ((\<lambda>c. []), [])") auto
  have inv: "attempted h c @ batches c = resolved_edges data rt (all_relations data) c"
    using edges_loop_inv[OF l, of c] by (simp add: attempted_Nil)
  show ?thesis
  proof (cases "c \<in> edge_collections")
    case True
    then show ?thesis
      using assms inv by (simp add: ingest_edges_with_def l flush_edges_attempted)
  next
    case False
    then have "resolved_edges data rt (all_relations data) c = []"
      by (rule resolved_edges_outside)
    with inv False assms show ?thesis
      by (simp add: ingest_edges_with_def l flush_edges_attempted)
  qed
qed

subsection \<open>The search loop\<close>


lemma indexed_docs_Cons:
  "indexed_docs ((q, nd) # items) =
     (if should_index nd then [make_search_doc q nd] else []) @ indexed_docs items"
  by (simp add: indexed_docs_def)

lemma documents_loop_inv:
  "documents_loop B dest cn items (batch, tot, h) = (batch', tot', h') \<Longrightarrow>
   attempted h' cn @ batch' = attempted h cn @ batch @ indexed_docs items
   \<and> tot' + length (delivered h cn) = tot + length (delivered h' cn)
   \<and> (\<forall>c. c \<noteq> cn \<longrightarrow> attempted h' c = attempted h c)"
proof (induction items arbitrary: batch tot h)
  case Nil
  then show ?case by (simp add: indexed_docs_def)
next
  case (Cons x items)
  obtain q nd where x: "x = (q, nd)" by (cases x)
  show ?case
  proof (cases "should_index nd")
    case False
    with Cons.prems x have "documents_loop B dest cn items (batch, tot, h) = (batch', tot', h')"
      by simp
    from Cons.IH[OF this] False show ?thesis
      by (simp add: x indexed_docs_Cons)
  next
    case True
    let ?docs = "batch @ [make_search_doc q nd]"
    show ?thesis
    proof (cases "length ?docs \<ge> B")
      case False
      with Cons.prems x True
      have "documents_loop B dest cn items (?docs, tot, h) = (batch', tot', h')"
        by (simp add: Let_def)
      from Cons.IH[OF this] True show ?thesis
        by (simp add: x indexed_docs_Cons)
    next
      case big: True
      show ?thesis
      proof (cases "dest h cn ?docs")
        case True
        with Cons.prems x \<open>should_index nd\<close> big
        have "documents_loop B dest cn items ([], tot + length ?docs, h @ [(cn, ?docs, True)])
                = (batch', tot', h')"
          by (simp add: Let_def import_bulk_eq)
        from Cons.IH[OF this] \<open>should_index nd\<close> show ?thesis
          by (simp add: x indexed_docs_Cons attempted_snoc delivered_snoc)
      next
        case False
        with Cons.prems x \<open>should_index nd\<close> big
        have "documents_loop B dest cn items ([], tot, h @ [(cn, ?docs, False)])
                = (batch', tot', h')"
          by (simp add: Let_def import_bulk_eq)
        from Cons.IH[OF this] \<open>should_index nd\<close> show ?thesis
          by (simp add: x indexed_docs_Cons attempted_snoc delivered_snoc)
      qed
    qed
  qed
qed

lemma ingest_documents_attempted:
  "ingest_documents_with B dest data cn = (tot, h) \<Longrightarrow>
   attempted h cn = indexed_docs data \<and> tot = length (delivered h cn)
   \<and> (\<forall>c. c \<noteq> cn \<longrightarrow> attempted h c = [])"
proof -
  assume r: "ingest_documents_with B dest data cn = (tot, h)"
  obtain batch t1 h1 where l: "documents_loop B dest cn data ([], 0, []) = (batch, t1, h1)"
    by (cases "documents_loop B dest cn data ([], 0, [])") auto
  from documents_loop_inv[OF l]
  have inv: "attempted h1 cn @ batch = indexed_docs data" "t1 = length (delivered h1 cn)"
    "\<forall>c. c \<noteq> cn \<longrightarrow> attempted h1 c = []"
    by (simp_all add: attempted_Nil delivered_Nil)
  show ?thesis
    using r inv
    by (auto simp: ingest_documents_with_def l import_bulk_eq attempted_snoc delivered_snoc
          split: if_splits bool.splits)
qed

lemma always_ok_True: "always_ok h c b"
  by (simp add: always_ok_def)

lemma documents_loop_all_ok:
  assumes ok: "\<And>h c b. dest h c b"
  shows "documents_loop B dest cn items (batch, tot, h) = (batch', tot', h') \<Longrightarrow>
   \<forall>x\<in>set h. snd (snd x) \<Longrightarrow> \<forall>x\<in>set h'. snd (snd x)"
proof (induction items arbitrary: batch tot h)
  case Nil
  then show ?case by simp
next
  case (Cons x items)
  obtain q nd where x: "x = (q, nd)" by (cases x)
  from Cons.prems obtain b1 t1 h1 where
    step: "documents_loop B dest cn items (b1, t1, h1) = (batch', tot', h')"
    and ok1: "\<forall>x\<in>set h1. snd (snd x)"
    by (simp add: x Let_def import_bulk_eq split: if_splits bool.splits) (insert ok, fastforce)+
  from Cons.IH[OF step ok1] show ?case .
qed

lemma ingest_documents_all_ok:
  "ingest_documents_with B always_ok data cn = (tot, h) \<Longrightarrow> \<forall>x\<in>set h. snd (snd x)"
proof -
  assume r: "ingest_documents_with B always_ok data cn = (tot, h)"
  obtain batch t1 h1 where l: "documents_loop B always_ok cn data ([], 0, []) = (batch, t1, h1)"
    by (cases "documents_loop B always_ok cn data ([], 0, [])") auto
  from documents_loop_all_ok[OF always_ok_True l] have "\<forall>x\<in>set h1. snd (snd x)" by simp
  with r always_ok_True[of h1 cn batch] show ?thesis
    by (auto simp: ingest_documents_with_def l import_bulk_eq split: if_splits bool.splits)
qed

lemma doc_name_fallback:
  "\<not> truthy (n_name nd) \<Longrightarrow> doc_name qname nd = after_last_dot qname"
  by (simp add: doc_name_def last_split_dot)

subsection \<open>The node loop\<close>


lemma determine_collection_range:
  "determine_collection nd = Some c \<Longrightarrow> c \<in> {''types'', ''functions'', ''modules'', ''members''}"
  by (auto simp: determine_collection_def KIND_TO_COLLECTION_def truthy_def Let_def
        split: option.splits if_splits)

lemma determine_collection_nonempty: "determine_collection nd = Some c \<Longrightarrow> c \<noteq> []"
  by (drule determine_collection_range) auto

lemma determine_collection_node_coll:
  "determine_collection nd = Some c \<Longrightarrow> c \<in> set NODE_COLLECTIONS"
  by (drule determine_collection_range) (auto simp: NODE_COLLECTIONS_def)

lemma classified_docs_Nil: "classified_docs data [] c = []"
  by (simp add: classified_docs_def)

lemma classified_docs_Cons:
  "classified_docs data ((q, nd) # items) c =
     (if determine_collection nd = Some c then [make_node_doc data q nd c] else [])
       @ classified_docs data items c"
  by (simp add: classified_docs_def)

lemma classified_docs_outside:
  "c \<notin> set NODE_COLLECTIONS \<Longrightarrow> classified_docs data items c = []"
  by (induction items) (auto simp: classified_docs_Cons classified_docs_Nil
        dest: determine_collection_node_coll)

text \<open>One iteration of the loop, as a case distinction.\<close>

lemma nodes_loop_skip:
  "determine_collection nd = None \<Longrightarrow>
   nodes_loop B dest data ((q, nd) # rest) (rt, batches, h) =
   nodes_loop B dest data rest (rt, batches, h)"
  by simp

lemma nodes_loop_keep:
  "determine_collection nd = Some c \<Longrightarrow> \<not> B \<le> Suc (length (batches c)) \<Longrightarrow>
   nodes_loop B dest data ((q, nd) # rest) (rt, batches, h) =
   nodes_loop B dest data rest
     (rt(q \<mapsto> c), batches(c := batches c @ [make_node_doc data q nd c]), h)"
  by (simp add: determine_collection_nonempty Let_def)

lemma nodes_loop_flush_ok:
  "determine_collection nd = Some c \<Longrightarrow> B \<le> Suc (length (batches c)) \<Longrightarrow>
   dest h c (batches c @ [make_node_doc data q nd c]) \<Longrightarrow>
   nodes_loop B dest data ((q, nd) # rest) (rt, batches, h) =
   nodes_loop B dest data rest
     (rt(q \<mapsto> c), batches(c := []), h @ [(c, batches c @ [make_node_doc data q nd c], True)])"
  by (simp add: determine_collection_nonempty Let_def import_bulk_eq)

lemma nodes_loop_flush_fail:
  "determine_collection nd = Some c \<Longrightarrow> B \<le> Suc (length (batches c)) \<Longrightarrow>
   \<not> dest h c (batches c @ [make_node_doc data q nd c]) \<Longrightarrow>
   nodes_loop B dest data ((q, nd) # rest) (rt, batches, h) =
   (Inl BulkImportError, h @ [(c, batches c @ [make_node_doc data q nd c], False)])"
  by (simp add: determine_collection_nonempty Let_def import_bulk_eq)

lemma nodes_loop_cases [consumes 0, case_names skip keep flush_ok flush_fail]:
  assumes "determine_collection nd = None \<Longrightarrow> P"
    and "\<And>c. determine_collection nd = Some c \<Longrightarrow> \<not> B \<le> Suc (length (batches c)) \<Longrightarrow> P"
    and "\<And>c. determine_collection nd = Some c \<Longrightarrow> B \<le> Suc (length (batches c)) \<Longrightarrow>
           dest h c (batches c @ [make_node_doc data q nd c]) \<Longrightarrow> P"
    and "\<And>c. determine_collection nd = Some c \<Longrightarrow> B \<le> Suc (length (batches c)) \<Longrightarrow>
           \<not> dest h c (batches c @ [make_node_doc data q nd c]) \<Longrightarrow> P"
  shows P
  using assms by (cases "determine_collection nd") blast+

text \<open>What holds of the loop whatever the destination does.\<close>

lemma nodes_loop_subset:
  "nodes_loop B dest data items (rt, batches, h) = (r, h') \<Longrightarrow>
   set (attempted h' c) \<subseteq>
     set (attempted h c) \<union> set (batches c) \<union> set (classified_docs data items c)"
proof (induction items arbitrary: rt batches h)
  case Nil
  then show ?case by auto
next
  case (Cons x items)
  obtain q nd where x: "x = (q, nd)" by (cases x)
  show ?case
  proof (cases rule: nodes_loop_cases[where nd=nd and B=B and batches=batches and dest=dest and h=h and data=data and q=q])
    case skip
    with Cons.prems x have "nodes_loop B dest data items (rt, batches, h) = (r, h')" by simp
    from Cons.IH[OF this] skip show ?thesis
      by (auto simp: x classified_docs_Cons)
  next
    case (keep c')
    from Cons.prems have "nodes_loop B dest data items
       (rt(q \<mapsto> c'), batches(c' := batches c' @ [make_node_doc data q nd c']), h) = (r, h')"
      by (simp only: x nodes_loop_keep[where batches=batches, OF keep])
    from Cons.IH[OF this] keep show ?thesis
      by (auto simp: x classified_docs_Cons split: if_splits)
  next
    case (flush_ok c')
    from Cons.prems have "nodes_loop B dest data items
       (rt(q \<mapsto> c'), batches(c' := []),
        h @ [(c', batches c' @ [make_node_doc data q nd c'], True)]) = (r, h')"
      by (simp only: x nodes_loop_flush_ok[where batches=batches and dest=dest and h=h and data=data and q=q, OF flush_ok])
    from Cons.IH[OF this] flush_ok show ?thesis
      by (auto simp: x classified_docs_Cons attempted_snoc split: if_splits)
  next
    case (flush_fail c')
    from Cons.prems have "h' = h @ [(c', batches c' @ [make_node_doc data q nd c'], False)]"
      by (simp only: x nodes_loop_flush_fail[where batches=batches and dest=dest and h=h and data=data and q=q, OF flush_fail]) simp
    with flush_fail show ?thesis
      by (auto simp: x classified_docs_Cons attempted_snoc split: if_splits)
  qed
qed

lemma nodes_loop_routing_sound:
  "nodes_loop B dest data items (rt, batches, h) = (Inr (rt', batches'), h') \<Longrightarrow>
   rt' qn = Some c \<Longrightarrow>
   rt qn = Some c \<or> (\<exists>nd. (qn, nd) \<in> set items \<and> determine_collection nd = Some c)"
proof (induction items arbitrary: rt batches h)
  case Nil
  then show ?case by simp
next
  case (Cons x items)
  obtain q nd where x: "x = (q, nd)" by (cases x)
  show ?case
  proof (cases rule: nodes_loop_cases[where nd=nd and B=B and batches=batches and dest=dest and h=h and data=data and q=q])
    case skip
    with Cons.prems x have "nodes_loop B dest data items (rt, batches, h) = (Inr (rt', batches'), h')"
      by simp
    from Cons.IH[OF this Cons.prems(2)] show ?thesis
      by (auto simp: x)
  next
    case (keep c')
    from Cons.prems have "nodes_loop B dest data items
       (rt(q \<mapsto> c'), batches(c' := batches c' @ [make_node_doc data q nd c']), h)
         = (Inr (rt', batches'), h')"
      by (simp only: x nodes_loop_keep[where batches=batches, OF keep])
    from Cons.IH[OF this Cons.prems(2)] keep show ?thesis
      by (auto simp: x split: if_splits)
  next
    case (flush_ok c')
    from Cons.prems have "nodes_loop B dest data items
       (rt(q \<mapsto> c'), batches(c' := []),
        h @ [(c', batches c' @ [make_node_doc data q nd c'], True)]) = (Inr (rt', batches'), h')"
      by (simp only: x nodes_loop_flush_ok[where batches=batches and dest=dest and h=h and data=data and q=q, OF flush_ok])
    from Cons.IH[OF this Cons.prems(2)] flush_ok show ?thesis
      by (auto simp: x split: if_splits)
  next
    case (flush_fail c')
    from Cons.prems show ?thesis
      by (simp only: x nodes_loop_flush_fail[where batches=batches and dest=dest and h=h and data=data and q=q, OF flush_fail]) simp
  qed
qed

text \<open>What holds when the loop returns.\<close>

lemma nodes_loop_inv:
  "nodes_loop B dest data items (rt, batches, h) = (Inr (rt', batches'), h') \<Longrightarrow>
   attempted h' c @ batches' c = attempted h c @ batches c @ classified_docs data items c"
proof (induction items arbitrary: rt batches h)
  case Nil
  then show ?case by (simp add: classified_docs_Nil)
next
  case (Cons x items)
  obtain q nd where x: "x = (q, nd)" by (cases x)
  show ?case
  proof (cases rule: nodes_loop_cases[where nd=nd and B=B and batches=batches and dest=dest and h=h and data=data and q=q])
    case skip
    with Cons.prems x have "nodes_loop B dest data items (rt, batches, h) = (Inr (rt', batches'), h')"
      by simp
    from Cons.IH[OF this] skip show ?thesis
      by (simp add: x classified_docs_Cons)
  next
    case (keep c')
    from Cons.prems have "nodes_loop B dest data items
       (rt(q \<mapsto> c'), batches(c' := batches c' @ [make_node_doc data q nd c']), h)
         = (Inr (rt', batches'), h')"
      by (simp only: x nodes_loop_keep[where batches=batches, OF keep])
    from Cons.IH[OF this] keep show ?thesis
      by (auto simp: x classified_docs_Cons)
  next
    case (flush_ok c')
    from Cons.prems have "nodes_loop B dest data items
       (rt(q \<mapsto> c'), batches(c' := []),
        h @ [(c', batches c' @ [make_node_doc data q nd c'], True)]) = (Inr (rt', batches'), h')"
      by (simp only: x nodes_loop_flush_ok[where batches=batches and dest=dest and h=h and data=data and q=q, OF flush_ok])
    from Cons.IH[OF this] flush_ok show ?thesis
      by (auto simp: x classified_docs_Cons attempted_snoc)
  next
    case (flush_fail c')
    from Cons.prems show ?thesis
      by (simp only: x nodes_loop_flush_fail[where batches=batches and dest=dest and h=h and data=data and q=q, OF flush_fail]) simp
  qed
qed

lemma nodes_loop_routing:
  "nodes_loop B dest data items (rt, batches, h) = (Inr (rt', batches'), h') \<Longrightarrow>
   distinct (map fst items) \<Longrightarrow>
   rt' qn = (case map_of items qn of
               None \<Rightarrow> rt qn
             | Some nd \<Rightarrow> (case determine_collection nd of None \<Rightarrow> rt qn | Some c \<Rightarrow> Some c))"
proof (induction items arbitrary: rt batches h)
  case Nil
  then show ?case by simp
next
  case (Cons x items)
  obtain q nd where x: "x = (q, nd)" by (cases x)
  from Cons.prems(2) x have d: "distinct (map fst items)" and nq: "map_of items q = None"
    by (auto simp: map_of_eq_None_iff)
  show ?case
  proof (cases rule: nodes_loop_cases[where nd=nd and B=B and batches=batches and dest=dest and h=h and data=data and q=q])
    case skip
    with Cons.prems x have "nodes_loop B dest data items (rt, batches, h) = (Inr (rt', batches'), h')"
      by simp
    from Cons.IH[OF this d] skip nq show ?thesis
      by (auto simp: x)
  next
    case (keep c')
    from Cons.prems have "nodes_loop B dest data items
       (rt(q \<mapsto> c'), batches(c' := batches c' @ [make_node_doc data q nd c']), h)
         = (Inr (rt', batches'), h')"
      by (simp only: x nodes_loop_keep[where batches=batches, OF keep])
    from Cons.IH[OF this d] keep nq show ?thesis
      by (auto simp: x split: option.splits)
  next
    case (flush_ok c')
    from Cons.prems have "nodes_loop B dest data items
       (rt(q \<mapsto> c'), batches(c' := []),
        h @ [(c', batches c' @ [make_node_doc data q nd c'], True)]) = (Inr (rt', batches'), h')"
      by (simp only: x nodes_loop_flush_ok[where batches=batches and dest=dest and h=h and data=data and q=q, OF flush_ok])
    from Cons.IH[OF this d] flush_ok nq show ?thesis
      by (auto simp: x split: option.splits)
  next
    case (flush_fail c')
    from Cons.prems show ?thesis
      by (simp only: x nodes_loop_flush_fail[where batches=batches and dest=dest and h=h and data=data and q=q, OF flush_fail]) simp
  qed
qed

text \<open>A destination that accepts every batch.\<close>

lemma nodes_loop_ok:
  assumes ok: "\<And>h c b. dest h c b"
  shows "\<forall>x\<in>set h. snd (snd x) \<Longrightarrow>
    \<exists>rt' batches' h'. nodes_loop B dest data items (rt, batches, h) = (Inr (rt', batches'), h')
       \<and> (\<forall>x\<in>set h'. snd (snd x))"
proof (induction items arbitrary: rt batches h)
  case Nil
  then show ?case by simp
next
  case (Cons x items)
  obtain q nd where x: "x = (q, nd)" by (cases x)
  show ?case
  proof (cases rule: nodes_loop_cases[where nd=nd and B=B and batches=batches and dest=dest and h=h and data=data and q=q])
    case skip
    from Cons.IH[OF Cons.prems, of rt batches] show ?thesis
      by (simp only: x nodes_loop_skip[OF skip])
  next
    case (keep c')
    from Cons.IH[OF Cons.prems] show ?thesis
      by (simp only: x nodes_loop_keep[where batches=batches, OF keep])
  next
    case (flush_ok c')
    have "\<forall>x\<in>set (h @ [(c', batches c' @ [make_node_doc data q nd c'], True)]). snd (snd x)"
      using Cons.prems by simp
    from Cons.IH[OF this] show ?thesis
      by (simp only: x nodes_loop_flush_ok[where batches=batches and dest=dest and h=h and data=data and q=q, OF flush_ok])
  next
    case (flush_fail c')
    with ok show ?thesis by blast
  qed
qed

subsection \<open>Flushing the remaining batches; the ingestion functions\<close>


lemma flush_nodes_subset:
  "flush_nodes dest cs batches h = (r, h') \<Longrightarrow>
   set (attempted h' c) \<subseteq> set (attempted h c) \<union> set (batches c)"
proof (induction cs arbitrary: h)
  case Nil
  then show ?case by auto
next
  case (Cons a cs)
  show ?case
  proof (cases "batches a \<noteq> [] \<and> \<not> dest h a (batches a)")
    case True
    with Cons.prems have "h' = h @ [(a, batches a, False)]"
      by (auto simp: import_bulk_eq)
    then show ?thesis by (auto simp: attempted_snoc split: if_splits)
  next
    case False
    then obtain h1 where s: "flush_nodes dest cs batches h1 = (r, h')"
      and h1: "h1 = h \<or> h1 = h @ [(a, batches a, True)]"
      using Cons.prems by (auto simp: import_bulk_eq split: if_splits bool.splits)
    from Cons.IH[OF s] h1 show ?thesis
      by (auto simp: attempted_snoc split: if_splits)
  qed
qed

lemma flush_nodes_inv:
  "flush_nodes dest cs batches h = (Inr u, h') \<Longrightarrow> distinct cs \<Longrightarrow>
   attempted h' c = attempted h c @ (if c \<in> set cs then batches c else [])"
proof (induction cs arbitrary: h)
  case Nil
  then show ?case by auto
next
  case (Cons a cs)
  from Cons.prems(2) have d: "distinct cs" and a: "a \<notin> set cs" by auto
  show ?case
  proof (cases "batches a = []")
    case True
    with Cons.prems have "flush_nodes dest cs batches h = (Inr u, h')" by simp
    from Cons.IH[OF this d] True a show ?thesis by auto
  next
    case False
    with Cons.prems have "flush_nodes dest cs batches (h @ [(a, batches a, True)]) = (Inr u, h')"
      by (auto simp: import_bulk_eq split: bool.splits)
    from Cons.IH[OF this d] False a show ?thesis
      by (auto simp: attempted_snoc)
  qed
qed

lemma flush_nodes_ok:
  assumes ok: "\<And>h c b. dest h c b"
  shows "\<forall>x\<in>set h. snd (snd x) \<Longrightarrow>
    \<exists>h'. flush_nodes dest cs batches h = (Inr (), h') \<and> (\<forall>x\<in>set h'. snd (snd x))"
proof (induction cs arbitrary: h)
  case Nil
  then show ?case by simp
next
  case (Cons a cs)
  show ?case
  proof (cases "batches a = []")
    case True
    with Cons.IH[OF Cons.prems] show ?thesis by simp
  next
    case False
    have "\<forall>x\<in>set (h @ [(a, batches a, True)]). snd (snd x)"
      using Cons.prems by simp
    from Cons.IH[OF this] False ok[of h a "batches a"] show ?thesis
      by (simp add: import_bulk_eq)
  qed
qed

lemma distinct_NODE_COLLECTIONS: "distinct NODE_COLLECTIONS"
  by (simp add: NODE_COLLECTIONS_def)

lemma ingest_nodes_subset:
  assumes "ingest_nodes_with B dest data = (r, h)"
  shows "set (attempted h c) \<subseteq> set (classified_docs data data c)"
proof -
  obtain r1 h1 where l: "nodes_loop B dest data data (Map.empty, (\<lambda>c. []), []) = (r1, h1)"
    by (cases "nodes_loop B dest data data (Map.empty, (\<lambda>c. []), [])") auto
  have s1: "set (attempted h1 c) \<subseteq> set (classified_docs data data c)"
    using nodes_loop_subset[OF l, of c] by (simp add: attempted_Nil)
  show ?thesis
  proof (cases r1)
    case (Inl e)
    with assms l have "h = h1" by (simp add: ingest_nodes_with_def)
    with s1 show ?thesis by simp
  next
    case (Inr p)
    obtain rt batches where p: "p = (rt, batches)" by (cases p)
    from nodes_loop_inv[OF l[unfolded Inr p], of c]
    have inv: "attempted h1 c @ batches c = classified_docs data data c"
      by (simp add: attempted_Nil)
    obtain r2 h2 where f: "flush_nodes dest NODE_COLLECTIONS batches h1 = (r2, h2)"
      by (cases "flush_nodes dest NODE_COLLECTIONS batches h1") auto
    from assms l Inr p f have "h = h2"
      by (auto simp: ingest_nodes_with_def split: sum.splits)
    moreover from inv have "set (attempted h1 c) \<union> set (batches c) = set (classified_docs data data c)"
      by (metis set_append)
    ultimately show ?thesis
      using flush_nodes_subset[OF f, of c] by auto
  qed
qed

lemma ingest_nodes_routing_sound:
  assumes "ingest_nodes_with B dest data = (Inr rt, h)" "rt qn = Some c"
  shows "\<exists>nd. (qn, nd) \<in> set data \<and> determine_collection nd = Some c"
proof -
  from assms(1) obtain batches h1 where
    l: "nodes_loop B dest data data (Map.empty, (\<lambda>c. []), []) = (Inr (rt, batches), h1)"
    by (auto simp: ingest_nodes_with_def split: prod.splits sum.splits)
  from nodes_loop_routing_sound[OF l assms(2)] show ?thesis by simp
qed

lemma ingest_nodes_routing:
  assumes "ingest_nodes_with B dest data = (Inr rt, h)" "distinct (map fst data)"
  shows "rt = routing_of data"
proof
  fix qn
  from assms(1) obtain batches h1 where
    l: "nodes_loop B dest data data (Map.empty, (\<lambda>c. []), []) = (Inr (rt, batches), h1)"
    by (auto simp: ingest_nodes_with_def split: prod.splits sum.splits)
  from nodes_loop_routing[OF l assms(2), of qn] show "rt qn = routing_of data qn"
    by (simp add: routing_of_def split: option.splits)
qed

lemma ingest_nodes_inv:
  assumes "ingest_nodes_with B dest data = (Inr rt, h)"
  shows "attempted h c = classified_docs data data c"
proof -
  from assms(1) obtain batches h1 u where
    l: "nodes_loop B dest data data (Map.empty, (\<lambda>c. []), []) = (Inr (rt, batches), h1)"
    and f: "flush_nodes dest NODE_COLLECTIONS batches h1 = (Inr u, h)"
    by (auto simp: ingest_nodes_with_def split: prod.splits sum.splits)
  from nodes_loop_inv[OF l, of c]
  have inv: "attempted h1 c @ batches c = classified_docs data data c"
    by (simp add: attempted_Nil)
  show ?thesis
  proof (cases "c \<in> set NODE_COLLECTIONS")
    case True
    with flush_nodes_inv[OF f distinct_NODE_COLLECTIONS, of c] inv show ?thesis by simp
  next
    case False
    then have "classified_docs data data c = []" by (rule classified_docs_outside)
    with flush_nodes_inv[OF f distinct_NODE_COLLECTIONS, of c] inv False show ?thesis by simp
  qed
qed

lemma ingest_nodes_ok:
  assumes ok: "\<And>h c b. dest h c b"
  shows "\<exists>rt h. ingest_nodes_with B dest data = (Inr rt, h) \<and> (\<forall>x\<in>set h. snd (snd x))"
proof -
  from nodes_loop_ok[of dest "[]" B data data Map.empty "\<lambda>c. []", OF ok]
  obtain rt batches h1 where
    l: "nodes_loop B dest data data (Map.empty, (\<lambda>c. []), []) = (Inr (rt, batches), h1)"
    and ok1: "\<forall>x\<in>set h1. snd (snd x)"
    by auto
  from flush_nodes_ok[of dest h1 NODE_COLLECTIONS batches, OF ok ok1]
  obtain h2 where f: "flush_nodes dest NODE_COLLECTIONS batches h1 = (Inr (), h2)"
    and ok2: "\<forall>x\<in>set h2. snd (snd x)"
    by auto
  from l f ok2 show ?thesis
    by (simp add: ingest_nodes_with_def)
qed

text \<open>The edge phase with a destination that accepts every batch.\<close>

lemma edges_step_ok:
  assumes ok: "\<And>h c b. dest h c b"
  shows "edges_step B dest data rt rel (batches, h) = (batches', h') \<Longrightarrow>
    \<forall>x\<in>set h. snd (snd x) \<Longrightarrow> \<forall>x\<in>set h'. snd (snd x)"
  using ok
  by (auto simp: edges_step_def import_bulk_eq Let_def split: option.splits if_splits prod.splits)

lemma relations_loop_ok:
  assumes ok: "\<And>h c b. dest h c b"
  shows "relations_loop B dest data rt rels (batches, h) = (batches', h') \<Longrightarrow>
    \<forall>x\<in>set h. snd (snd x) \<Longrightarrow> \<forall>x\<in>set h'. snd (snd x)"
proof (induction rels arbitrary: batches h)
  case Nil
  then show ?case by simp
next
  case (Cons rel rels)
  obtain b1 h1 where s: "edges_step B dest data rt rel (batches, h) = (b1, h1)"
    by (cases "edges_step B dest data rt rel (batches, h)") auto
  from Cons.prems s have "relations_loop B dest data rt rels (b1, h1) = (batches', h')" by simp
  from Cons.IH[OF this edges_step_ok[OF ok s Cons.prems(2)]] show ?case .
qed

lemma edges_loop_ok:
  assumes ok: "\<And>h c b. dest h c b"
  shows "edges_loop B dest data rt items (batches, h) = (batches', h') \<Longrightarrow>
    \<forall>x\<in>set h. snd (snd x) \<Longrightarrow> \<forall>x\<in>set h'. snd (snd x)"
proof (induction items arbitrary: batches h)
  case Nil
  then show ?case by simp
next
  case (Cons x items)
  obtain q nd where x: "x = (q, nd)" by (cases x)
  obtain b1 h1 where s: "relations_loop B dest data rt (relations_of nd) (batches, h) = (b1, h1)"
    by (cases "relations_loop B dest data rt (relations_of nd) (batches, h)") auto
  from Cons.prems x s have "edges_loop B dest data rt items (b1, h1) = (batches', h')" by simp
  from Cons.IH[OF this relations_loop_ok[OF ok s Cons.prems(2)]] show ?case .
qed

lemma flush_edges_ok:
  assumes ok: "\<And>h c b. dest h c b"
  shows "\<forall>x\<in>set h. snd (snd x) \<Longrightarrow> \<forall>x\<in>set (flush_edges dest cs batches h). snd (snd x)"
proof (induction cs arbitrary: h)
  case Nil
  then show ?case by simp
next
  case (Cons a cs)
  have "\<forall>x\<in>set (h @ [(a, batches a, dest h a (batches a))]). snd (snd x)"
    using Cons.prems ok[of h a "batches a"] by simp
  from Cons.IH[OF this] Cons.IH[OF Cons.prems] show ?case
    by (simp add: import_bulk_eq)
qed

lemma ingest_edges_ok:
  assumes ok: "\<And>h c b. dest h c b"
  shows "\<forall>x\<in>set (ingest_edges_with B order dest data rt). snd (snd x)"
proof -
  obtain batches h where l: "edges_loop B dest data rt data ((\<lambda>c. []), []) = (batches, h)"
    by (cases "edges_loop B dest data rt data ((\<lambda>c. []), [])") auto
  from edges_loop_ok[OF ok l] have "\<forall>x\<in>set h. snd (snd x)" by simp
  from flush_edges_ok[OF ok this] show ?thesis
    by (simp add: ingest_edges_with_def l)
qed

section \<open>The claims\<close>

subsection \<open>Name variants and the fallback name\<close>





lemma in_indexed_docs:
  "(qname, nd) \<in> set items \<Longrightarrow> should_index nd \<Longrightarrow> make_search_doc qname nd \<in> set (indexed_docs items)"
  by (force simp: indexed_docs_def)

lemma indexed_docs_qname:
  "d \<in> set (indexed_docs items) \<Longrightarrow>
   \<exists>nd. (s_qname d, nd) \<in> set items \<and> should_index nd"
  by (auto simp: indexed_docs_def make_search_doc_def Let_def)

lemma s_qname_make_search_doc: "s_qname (make_search_doc qname nd) = qname"
  by (simp add: make_search_doc_def Let_def)

lemma ingest_documents_sent:
  "attempted (snd (ingest_documents_with B dest data cn)) cn = indexed_docs data"
  using ingest_documents_attempted[of B dest data cn]
  by (cases "ingest_documents_with B dest data cn") simp

text \<open>
  Claim C10. For an indexed entity whose \<open>name\<close> attribute is absent, null or empty, the
  \<open>name\<close> field of the search document, and the argument of the name-variant generation,
  is the part of the qname after its last dot (the whole qname when it has none).
\<close>

theorem C10_fallback_name:
  assumes "(qname, nd) \<in> set data" and "should_index nd"
    and "n_name nd = None \<or> n_name nd = Some []"
  shows "make_search_doc qname nd \<in> set (attempted (snd (ingest_documents_with B dest data cn)) cn)
       \<and> s_name (make_search_doc qname nd) = after_last_dot qname
       \<and> s_name_variants (make_search_doc qname nd) = make_name_variants (Some (after_last_dot qname))"
proof -
  from assms(3) have "\<not> truthy (n_name nd)" by (auto simp: truthy_def)
  then have "doc_name qname nd = after_last_dot qname" by (rule doc_name_fallback)
  then show ?thesis
    using in_indexed_docs[OF assms(1,2)]
    by (simp add: ingest_documents_sent make_search_doc_def Let_def)
qed

lemma should_index_class: "should_index (mk_node ''class'' p rels)"
  by (simp add: should_index_def mk_node_def INDEXABLE_KINDS_def)

text \<open>A class \<open>pkg.mod.Foo\<close> without a name is indexed under the name \<open>Foo\<close>.\<close>

theorem C10_fallback_name_witness:
  "(''pkg.mod.Foo'', mk_node ''class'' None []) \<in> set [(''pkg.mod.Foo'', mk_node ''class'' None [])]
   \<and> should_index (mk_node ''class'' None [])
   \<and> n_name (mk_node ''class'' None []) = None
   \<and> s_name (make_search_doc ''pkg.mod.Foo'' (mk_node ''class'' None [])) = ''Foo''
   \<and> s_name_variants (make_search_doc ''pkg.mod.Foo'' (mk_node ''class'' None []))
        = make_name_variants (Some ''Foo'')"
proof -
  have a: "after_last_dot ''pkg.mod.Foo'' = ''Foo''"
    by (simp add: after_last_dot_def)
  have n: "n_name (mk_node ''class'' None []) = None" by (simp add: mk_node_def)
  show ?thesis
    using C10_fallback_name[of "''pkg.mod.Foo''" "mk_node ''class'' None []"
        "[(''pkg.mod.Foo'', mk_node ''class'' None [])]" 100 always_ok "''code_nodes''"]
    by (simp add: should_index_class a n)
qed

subsection \<open>Which entities are indexed\<close>

lemma should_index_iff:
  "should_index nd \<longleftrightarrow>
     (\<exists>k. n_kind nd = Some k \<and> k \<in> INDEXABLE_KINDS)
     \<and> \<not> str_in ''.param.'' (case n_qualified_name nd of None \<Rightarrow> [] | Some q \<Rightarrow> q)
     \<and> \<not> str_in ''.return'' (case n_qualified_name nd of None \<Rightarrow> [] | Some q \<Rightarrow> q)
     \<and> \<not> str_in ''.yields.'' (case n_qualified_name nd of None \<Rightarrow> [] | Some q \<Rightarrow> q)"
  unfolding should_index_def Let_def
  by (cases "n_kind nd") simp_all

lemma distinct_keys_unique:
  "distinct (map fst items) \<Longrightarrow> (q, a) \<in> set items \<Longrightarrow> (q, b) \<in> set items \<Longrightarrow> a = b"
  by (meson eq_key_imp_eq_value)

text \<open>
  Claim C8 as stated fails: an entity stored under the qname \<open>m.f.param.x\<close>, of kind
  \<open>function\<close>, whose record has no \<open>qualified_name\<close> attribute, is indexed although its
  qname contains the marker \<open>.param.\<close>.
\<close>

theorem C8_counterexample:
  "str_in ''.param.'' ''m.f.param.x''
   \<and> fst (ingest_documents always_ok [(''m.f.param.x'', mk_node ''function'' (Some ''m.f'') [])] ''code_nodes'') = 1
   \<and> map s_qname
        (delivered (snd (ingest_documents always_ok
                           [(''m.f.param.x'', mk_node ''function'' (Some ''m.f'') [])] ''code_nodes''))
           ''code_nodes'') = [''m.f.param.x'']"
  by (simp add: ingest_documents_def ingest_documents_with_def should_index_def mk_node_def
        INDEXABLE_KINDS_def import_bulk_def always_ok_def delivered_def s_qname_make_search_doc Let_def)

text \<open>
  Claim C8, amended. An entity receives a search document if and only if its kind is one of
  class, function, async\_function, module, assignment and the \<open>qualified_name\<close> attribute
  of its own record (the empty string when the attribute is absent) contains none of the
  markers \<open>.param.\<close>, \<open>.return\<close>, \<open>.yields.\<close>; the key under which the entity is stored
  is not examined.
\<close>

theorem C8_should_index:
  assumes "distinct (map fst data)" and "(qname, nd) \<in> set data"
  shows "(\<exists>d \<in> set (attempted (snd (ingest_documents_with B dest data cn)) cn). s_qname d = qname)
     \<longleftrightarrow>
       (\<exists>k. n_kind nd = Some k \<and> k \<in> INDEXABLE_KINDS)
       \<and> \<not> str_in ''.param.'' (case n_qualified_name nd of None \<Rightarrow> [] | Some q \<Rightarrow> q)
       \<and> \<not> str_in ''.return'' (case n_qualified_name nd of None \<Rightarrow> [] | Some q \<Rightarrow> q)
       \<and> \<not> str_in ''.yields.'' (case n_qualified_name nd of None \<Rightarrow> [] | Some q \<Rightarrow> q)"
proof -
  have "(\<exists>d \<in> set (indexed_docs data). s_qname d = qname) \<longleftrightarrow> should_index nd"
  proof
    assume "\<exists>d \<in> set (indexed_docs data). s_qname d = qname"
    then obtain d where d: "d \<in> set (indexed_docs data)" and q: "s_qname d = qname" ..
    from indexed_docs_qname[OF d] q obtain nd' where
      nd': "(qname, nd') \<in> set data" "should_index nd'" by auto
    from distinct_keys_unique[OF assms(1) nd'(1) assms(2)] nd'(2) show "should_index nd"
      by simp
  next
    assume "should_index nd"
    from in_indexed_docs[OF assms(2) this]
    have "make_search_doc qname nd \<in> set (indexed_docs data)" .
    moreover have "s_qname (make_search_doc qname nd) = qname"
      by (rule s_qname_make_search_doc)
    ultimately show "\<exists>d \<in> set (indexed_docs data). s_qname d = qname" ..
  qed
  then have "(\<exists>d \<in> set (attempted (snd (ingest_documents_with B dest data cn)) cn). s_qname d = qname)
     \<longleftrightarrow> should_index nd"
    by (simp only: ingest_documents_sent)
  then show ?thesis
    unfolding should_index_iff[of nd] .
qed

text \<open>A function whose record carries its qname \<open>m.f\<close> is indexed.\<close>

theorem C8_should_index_witness:
  "distinct (map fst [(''m.f'', (mk_node ''function'' (Some ''m'') [])\<lparr>n_qualified_name := Some ''m.f''\<rparr>)])
   \<and> (\<exists>d \<in> set (attempted (snd (ingest_documents_with 100 always_ok
                  [(''m.f'', (mk_node ''function'' (Some ''m'') [])\<lparr>n_qualified_name := Some ''m.f''\<rparr>)]
                  ''code_nodes'')) ''code_nodes''). s_qname d = ''m.f'')"
  using C8_should_index[of "[(''m.f'', (mk_node ''function'' (Some ''m'') [])\<lparr>n_qualified_name := Some ''m.f''\<rparr>)]"
      "''m.f''" "(mk_node ''function'' (Some ''m'') [])\<lparr>n_qualified_name := Some ''m.f''\<rparr>"
      100 always_ok "''code_nodes''"]
  by (simp add: mk_node_def INDEXABLE_KINDS_def)

subsection \<open>Assignments\<close>

lemma classified_docs_qname:
  "d \<in> set (classified_docs data items c) \<Longrightarrow>
   \<exists>nd. (d_qname d, nd) \<in> set items \<and> determine_collection nd = Some c"
  by (auto simp: classified_docs_def make_node_doc_def)

lemma in_classified_docs:
  "(qname, nd) \<in> set items \<Longrightarrow> determine_collection nd = Some c \<Longrightarrow>
   make_node_doc data qname nd c \<in> set (classified_docs data items c)"
  by (force simp: classified_docs_def)

lemma determine_collection_assignment:
  assumes "n_kind nd = Some ''assignment'' \<or> n_kind nd = Some ''augmented_assignment''"
  shows "determine_collection nd =
     (case n_parent_qualified_name nd of
        None \<Rightarrow> None
      | Some p \<Rightarrow> if p \<noteq> [] \<and> \<not> str_in ''.assignment.'' p then Some ''members'' else None)"
  using assms unfolding determine_collection_def Let_def
  by (elim disjE) (simp_all add: KIND_TO_COLLECTION_def truthy_def)

lemma not_classified_not_sent:
  assumes "distinct (map fst data)" "(qname, nd) \<in> set data" "determine_collection nd = None"
  shows "\<forall>d\<in>set (attempted (snd (ingest_nodes_with B dest data)) c). d_qname d \<noteq> qname"
proof
  fix d assume d: "d \<in> set (attempted (snd (ingest_nodes_with B dest data)) c)"
  obtain r h where r: "ingest_nodes_with B dest data = (r, h)"
    by (cases "ingest_nodes_with B dest data")
  from d r ingest_nodes_subset[OF r, of c] have "d \<in> set (classified_docs data data c)" by auto
  from classified_docs_qname[OF this] obtain nd' where
    nd': "(d_qname d, nd') \<in> set data" "determine_collection nd' = Some c" by auto
  show "d_qname d \<noteq> qname"
  proof
    assume "d_qname d = qname"
    with nd'(1) have "(qname, nd') \<in> set data" by simp
    from distinct_keys_unique[OF assms(1) this assms(2)] nd'(2) assms(3) show False by simp
  qed
qed

lemma not_classified_not_routed:
  assumes "distinct (map fst data)" "(qname, nd) \<in> set data" "determine_collection nd = None"
    and "fst (ingest_nodes_with B dest data) = Inr rt"
  shows "rt qname = None"
proof (rule ccontr)
  assume "rt qname \<noteq> None"
  then obtain c where c: "rt qname = Some c" by auto
  obtain h where r: "ingest_nodes_with B dest data = (Inr rt, h)"
    using assms(4) by (cases "ingest_nodes_with B dest data") auto
  from ingest_nodes_routing_sound[OF r c] obtain nd' where
    nd': "(qname, nd') \<in> set data" "determine_collection nd' = Some c" by auto
  from distinct_keys_unique[OF assms(1) nd'(1) assms(2)] nd'(2) assms(3) show False by simp
qed

text \<open>
  Claim C9. An entity of kind assignment or augmented\_assignment whose
  \<open>parent_qualified_name\<close> is absent, null or empty is classified into no collection: no
  document with its qname is sent to any node collection, and the routing table has no
  entry for its qname.
\<close>

theorem C9_assignment_without_parent:
  assumes "n_kind nd = Some ''assignment'' \<or> n_kind nd = Some ''augmented_assignment''"
    and "n_parent_qualified_name nd = None \<or> n_parent_qualified_name nd = Some []"
    and "distinct (map fst data)" and "(qname, nd) \<in> set data"
  shows "determine_collection nd = None
     \<and> (\<forall>c. \<forall>d\<in>set (attempted (snd (ingest_nodes_with B dest data)) c). d_qname d \<noteq> qname)
     \<and> (\<forall>rt. fst (ingest_nodes_with B dest data) = Inr rt \<longrightarrow> rt qname = None)"
proof -
  from assms(2) have n: "determine_collection nd = None"
    unfolding determine_collection_assignment[OF assms(1)] by auto
  have s: "\<forall>c. \<forall>d\<in>set (attempted (snd (ingest_nodes_with B dest data)) c). d_qname d \<noteq> qname"
    using not_classified_not_sent[OF assms(3,4) n] by simp
  have r: "\<forall>rt. fst (ingest_nodes_with B dest data) = Inr rt \<longrightarrow> rt qname = None"
    using not_classified_not_routed[OF assms(3,4) n] by simp
  from n s r show ?thesis by simp
qed

text \<open>A module \<open>m\<close> and an assignment \<open>m.X\<close> without a parent: nothing is sent to \<open>members\<close>.\<close>

theorem C9_assignment_without_parent_witness:
  "n_kind (mk_node ''assignment'' None []) = Some ''assignment''
   \<and> n_parent_qualified_name (mk_node ''assignment'' None []) = None
   \<and> distinct (map fst [(''m'', mk_node ''module'' None []), (''m.X'', mk_node ''assignment'' None [])])
   \<and> (''m.X'', mk_node ''assignment'' None [])
        \<in> set [(''m'', mk_node ''module'' None []), (''m.X'', mk_node ''assignment'' None [])]
   \<and> determine_collection (mk_node ''assignment'' None []) = None
   \<and> attempted (snd (ingest_nodes_with 1000 always_ok
         [(''m'', mk_node ''module'' None []), (''m.X'', mk_node ''assignment'' None [])])) ''members'' = []"
proof -
  have k: "n_kind (mk_node ''assignment'' None []) = Some ''assignment''"
    and p: "n_parent_qualified_name (mk_node ''assignment'' None []) = None"
    by (simp_all add: mk_node_def)
  have dm: "determine_collection (mk_node ''module'' None []) = Some ''modules''"
    by (simp add: determine_collection_def mk_node_def KIND_TO_COLLECTION_def truthy_def)
  have da: "determine_collection (mk_node ''assignment'' None []) = None"
    by (simp add: determine_collection_def mk_node_def KIND_TO_COLLECTION_def truthy_def)
  have run: "attempted (snd (ingest_nodes_with 1000 always_ok
         [(''m'', mk_node ''module'' None []), (''m.X'', mk_node ''assignment'' None [])])) ''members'' = []"
    by (simp add: ingest_nodes_with_def dm da Let_def import_bulk_def always_ok_def
          NODE_COLLECTIONS_def attempted_def)
  show ?thesis
    using C9_assignment_without_parent[of "mk_node ''assignment'' None []"
        "[(''m'', mk_node ''module'' None []), (''m.X'', mk_node ''assignment'' None [])]" "''m.X''"
        1000 always_ok]
    by (simp add: k p da run)
qed

lemma routing_of_member:
  "distinct (map fst data) \<Longrightarrow> (qname, nd) \<in> set data \<Longrightarrow>
   routing_of data qname = determine_collection nd"
  by (simp add: routing_of_def)

lemma determine_collection_mk_node_simps:
  "determine_collection (mk_node ''module'' p rels) = Some ''modules''"
  "determine_collection (mk_node ''class'' p rels) = Some ''types''"
  "determine_collection (mk_node ''function'' p rels) = Some ''functions''"
  "determine_collection (mk_node ''assignment'' (Some q) rels) =
     (if q \<noteq> [] \<and> \<not> str_in ''.assignment.'' q then Some ''members'' else None)"
  by (simp_all add: determine_collection_def mk_node_def KIND_TO_COLLECTION_def truthy_def)

text \<open>
  Claim C6 as stated fails: an assignment at module level is dropped when the qname of its
  module contains \<open>.assignment.\<close>, as for a module \<open>pkg.assignment.utils\<close>.
\<close>

theorem C6_counterexample:
  "n_kind (mk_node ''module'' None []) = Some ''module''
   \<and> map_of [(''pkg.assignment.utils'', mk_node ''module'' None []),
              (''pkg.assignment.utils.LIMIT'', mk_node ''assignment'' (Some ''pkg.assignment.utils'') [])]
        ''pkg.assignment.utils'' = Some (mk_node ''module'' None [])
   \<and> determine_collection (mk_node ''assignment'' (Some ''pkg.assignment.utils'') []) = None
   \<and> fst (ingest_nodes always_ok
        [(''pkg.assignment.utils'', mk_node ''module'' None []),
         (''pkg.assignment.utils.LIMIT'', mk_node ''assignment'' (Some ''pkg.assignment.utils'') [])])
       = Inr [''pkg.assignment.utils'' \<mapsto> ''modules'']
   \<and> attempted (snd (ingest_nodes always_ok
        [(''pkg.assignment.utils'', mk_node ''module'' None []),
         (''pkg.assignment.utils.LIMIT'', mk_node ''assignment'' (Some ''pkg.assignment.utils'') [])]))
       ''members'' = []"
proof -
  have k: "n_kind (mk_node ''module'' None []) = Some ''module''"
    by (simp add: mk_node_def)
  have d: "determine_collection (mk_node ''assignment'' (Some ''pkg.assignment.utils'') []) = None"
    by (simp add: determine_collection_mk_node_simps)
  show ?thesis
    by (simp add: k d ingest_nodes_def ingest_nodes_with_def determine_collection_mk_node_simps
          Let_def import_bulk_def always_ok_def NODE_COLLECTIONS_def attempted_def)
qed

text \<open>
  Claim C6, amended. An entity of kind assignment or augmented\_assignment is classified into
  \<open>members\<close> exactly when its parent qname is non-empty and does not contain the text
  \<open>.assignment.\<close>: then a run that returns has a \<open>members\<close> document and a routing-table
  entry for it; otherwise classification returns none, and there is neither a document nor
  a routing-table entry. The kinds of the parent and of its ancestors are not looked at.
\<close>

theorem C6_assignment_scope:
  assumes "n_kind nd = Some ''assignment'' \<or> n_kind nd = Some ''augmented_assignment''"
    and "distinct (map fst data)" and "(qname, nd) \<in> set data"
    and "ingest_nodes_with B dest data = (Inr rt, h)"
  shows "if (\<exists>p. n_parent_qualified_name nd = Some p \<and> p \<noteq> [] \<and> \<not> str_in ''.assignment.'' p)
         then determine_collection nd = Some ''members''
            \<and> rt qname = Some ''members''
            \<and> make_node_doc data qname nd ''members'' \<in> set (attempted h ''members'')
         else determine_collection nd = None
            \<and> rt qname = None
            \<and> (\<forall>c. \<forall>d\<in>set (attempted h c). d_qname d \<noteq> qname)"
proof (cases "\<exists>p. n_parent_qualified_name nd = Some p \<and> p \<noteq> [] \<and> \<not> str_in ''.assignment.'' p")
  case True
  then have m: "determine_collection nd = Some ''members''"
    unfolding determine_collection_assignment[OF assms(1)] by auto
  have "rt = routing_of data" by (rule ingest_nodes_routing[OF assms(4,2)])
  then have r: "rt qname = Some ''members''"
    using routing_of_member[OF assms(2,3)] m by simp
  have "make_node_doc data qname nd ''members'' \<in> set (attempted h ''members'')"
    unfolding ingest_nodes_inv[OF assms(4)] by (rule in_classified_docs[OF assms(3) m])
  with True m r show ?thesis by simp
next
  case False
  then have n: "determine_collection nd = None"
    unfolding determine_collection_assignment[OF assms(1)] by (auto split: option.splits)
  have r: "rt qname = None"
    using not_classified_not_routed[OF assms(2,3) n, of B dest rt] assms(4) by simp
  have s: "\<forall>c. \<forall>d\<in>set (attempted h c). d_qname d \<noteq> qname"
    using not_classified_not_sent[OF assms(2,3) n, of B dest] assms(4) by simp
  from False n r s show ?thesis by simp
qed

text \<open>An assignment \<open>m.X\<close> in the module \<open>m\<close> becomes a member.\<close>

theorem C6_assignment_scope_witness:
  "n_kind (mk_node ''assignment'' (Some ''m'') []) = Some ''assignment''
   \<and> distinct (map fst [(''m'', mk_node ''module'' None []), (''m.X'', mk_node ''assignment'' (Some ''m'') [])])
   \<and> determine_collection (mk_node ''assignment'' (Some ''m'') []) = Some ''members''
   \<and> ingest_nodes_with 1000 always_ok
        [(''m'', mk_node ''module'' None []), (''m.X'', mk_node ''assignment'' (Some ''m'') [])]
      = (Inr [''m'' \<mapsto> ''modules'', ''m.X'' \<mapsto> ''members''],
         [(''members'', [make_node_doc [(''m'', mk_node ''module'' None []),
                                         (''m.X'', mk_node ''assignment'' (Some ''m'') [])]
                           ''m.X'' (mk_node ''assignment'' (Some ''m'') []) ''members''], True),
          (''modules'', [make_node_doc [(''m'', mk_node ''module'' None []),
                                         (''m.X'', mk_node ''assignment'' (Some ''m'') [])]
                           ''m'' (mk_node ''module'' None []) ''modules''], True)])
   \<and> make_node_doc [(''m'', mk_node ''module'' None []), (''m.X'', mk_node ''assignment'' (Some ''m'') [])]
        ''m.X'' (mk_node ''assignment'' (Some ''m'') []) ''members''
       \<in> set (attempted
             [(''members'', [make_node_doc [(''m'', mk_node ''module'' None []),
                                         (''m.X'', mk_node ''assignment'' (Some ''m'') [])]
                           ''m.X'' (mk_node ''assignment'' (Some ''m'') []) ''members''], True),
              (''modules'', [make_node_doc [(''m'', mk_node ''module'' None []),
                                         (''m.X'', mk_node ''assignment'' (Some ''m'') [])]
                           ''m'' (mk_node ''module'' None []) ''modules''], True)] ''members'')"
proof -
  let ?g = "[(''m'', mk_node ''module'' None []), (''m.X'', mk_node ''assignment'' (Some ''m'') [])]"
  let ?h = "[(''members'', [make_node_doc ?g ''m.X'' (mk_node ''assignment'' (Some ''m'') []) ''members''], True),
             (''modules'', [make_node_doc ?g ''m'' (mk_node ''module'' None []) ''modules''], True)]"
  have k: "n_kind (mk_node ''assignment'' (Some ''m'') []) = Some ''assignment''"
    by (simp add: mk_node_def)
  have p: "n_parent_qualified_name (mk_node ''assignment'' (Some ''m'') []) = Some ''m''"
    by (simp add: mk_node_def)
  have d: "determine_collection (mk_node ''assignment'' (Some ''m'') []) = Some ''members''"
    by (simp add: determine_collection_mk_node_simps)
  have run: "ingest_nodes_with 1000 always_ok ?g = (Inr [''m'' \<mapsto> ''modules'', ''m.X'' \<mapsto> ''members''], ?h)"
    by (simp add: ingest_nodes_with_def determine_collection_mk_node_simps
          Let_def import_bulk_def always_ok_def NODE_COLLECTIONS_def)
  have dk: "distinct (map fst ?g)" by simp
  have mem: "(''m.X'', mk_node ''assignment'' (Some ''m'') []) \<in> set ?g" by simp
  show ?thesis
    using C6_assignment_scope[OF disjI1[OF k] dk mem run]
    by (simp add: k p d run)
qed

subsection \<open>Relation resolution\<close>

lemma redirect_init_cases:
  assumes "redirect_init rt ec t0 tc0 = Some (t, tc)"
  shows "(t = t0 \<and> tc = tc0) \<or>
         (ec = ''calls'' \<and> tc0 = Some ''types'' \<and> t = t0 @ ''.__init__'' \<and> tc = rt t \<and> rt t \<noteq> None)"
  using assms by (auto simp: redirect_init_def Let_def split: if_splits)

lemma infer_parent_cases:
  assumes "infer_parent data ec t tc1 = Some tc"
  shows "tc1 = Some tc \<or> (ec = ''parent'' \<and> tc = ''modules'')"
  using assms by (auto simp: infer_parent_def split: if_splits option.splits)

lemma resolve_endpoints_shape:
  assumes "resolve_endpoints data rt rel rtype ec source t0 = Some (c, e)"
  shows "c = ec \<and> (\<exists>target sc tc.
           rt source = Some sc \<and> sc \<noteq> [] \<and> tc \<noteq> []
           \<and> e = make_edge_doc rel ec rtype source sc target tc
           \<and> (rt target = Some tc \<or> ec = ''parent'' \<and> tc = ''modules'')
           \<and> (target = t0 \<or> ec = ''calls'' \<and> rt t0 = Some ''types'' \<and> target = t0 @ ''.__init__''))"
proof -
  from assms obtain target tc1 where
    r: "redirect_init rt ec t0 (rt t0) = Some (target, tc1)"
    by (auto simp: resolve_endpoints_def Let_def split: option.splits prod.splits)
  from assms r obtain sc tc where
    sc: "rt source = Some sc" "sc \<noteq> []"
    and tc: "infer_parent data ec target tc1 = Some tc" "tc \<noteq> []"
    and e: "c = ec" "e = make_edge_doc rel ec rtype source sc target tc"
    by (auto simp: resolve_endpoints_def Let_def truthy_def split: option.splits if_splits)
  from redirect_init_cases[OF r] infer_parent_cases[OF tc(1)]
  have "(rt target = Some tc \<or> ec = ''parent'' \<and> tc = ''modules'')
      \<and> (target = t0 \<or> ec = ''calls'' \<and> rt t0 = Some ''types'' \<and> target = t0 @ ''.__init__'')"
    by auto
  with sc tc(2) e show ?thesis by blast
qed

lemma resolve_relation_shape:
  assumes "resolve_relation data rt rel = Some (c, e)"
  shows "\<exists>rtype source t0 target sc tc.
           rel_type rel = Some rtype \<and> rel_source rel = Some source \<and> rel_target rel = Some t0
           \<and> map_of REL_TO_EDGE_COLLECTION rtype = Some (Some c)
           \<and> rt source = Some sc \<and> sc \<noteq> [] \<and> tc \<noteq> []
           \<and> e = make_edge_doc rel c rtype source sc target tc
           \<and> (rt target = Some tc \<or> c = ''parent'' \<and> tc = ''modules'')
           \<and> (target = t0 \<or> c = ''calls'' \<and> rt t0 = Some ''types'' \<and> target = t0 @ ''.__init__'')"
proof -
  from assms obtain rtype source t0 ec where
    f: "rel_type rel = Some rtype" "rel_source rel = Some source" "rel_target rel = Some t0"
    and m: "map_of REL_TO_EDGE_COLLECTION rtype = Some (Some ec)"
    and r: "resolve_endpoints data rt rel rtype ec source t0 = Some (c, e)"
    unfolding resolve_relation_def
    by (auto split: option.splits if_splits)
  from resolve_endpoints_shape[OF r] f m show ?thesis
    by blast
qed

lemma in_resolved_edges:
  "e \<in> set (resolved_edges data rt rels c) \<longleftrightarrow>
     (\<exists>rel\<in>set rels. resolve_relation data rt rel = Some (c, e))"
  by (induction rels)
     (auto simp: resolved_edges_Cons resolved_edges_Nil split: option.splits if_splits)

lemma calls_rtype:
  "map_of REL_TO_EDGE_COLLECTION rtype = Some (Some ''calls'') \<Longrightarrow> rtype = ''CALLS''"
  by (auto simp: REL_TO_EDGE_COLLECTION_def split: if_splits)

lemma resolve_endpoints_redirect_none:
  assumes "rt target = Some ''types''" "rt (target @ ''.__init__'') = None"
  shows "resolve_endpoints data rt rel rtype ''calls'' source target = None"
  using assms by (simp add: resolve_endpoints_def redirect_init_def Let_def)

lemma resolve_endpoints_redirect_some:
  assumes "rt target = Some ''types''" "rt (target @ ''.__init__'') = Some c"
  shows "resolve_endpoints data rt rel rtype ''calls'' source target =
     (case rt source of
        None \<Rightarrow> None
      | Some sc \<Rightarrow>
          if sc = [] \<or> c = [] then None
          else Some (''calls'', make_edge_doc rel ''calls'' rtype source sc (target @ ''.__init__'') c))"
  using assms
  by (simp add: resolve_endpoints_def redirect_init_def infer_parent_def truthy_def Let_def
        split: option.splits)

lemma resolve_relation_calls:
  assumes "rel_type rel = Some rtype" "map_of REL_TO_EDGE_COLLECTION rtype = Some (Some ''calls'')"
    and "rel_target rel = Some target"
  shows "resolve_relation data rt rel =
     (case rel_source rel of
        None \<Rightarrow> None
      | Some source \<Rightarrow>
          if source = [] \<or> target = [] then None
          else resolve_endpoints data rt rel rtype ''calls'' source target)"
proof -
  from calls_rtype[OF assms(2)] have "rtype = ''CALLS''" .
  then have "rtype \<noteq> []" by simp
  with assms show ?thesis
    by (simp add: resolve_relation_def truthy_def split: option.splits)
qed

lemma edge_order_ok: "distinct edge_order" "set edge_order = edge_collections"
  by (simp_all add: edge_order_def edge_collections_def EDGE_DEFINITIONS_def)

lemmas run_simps =
  ingest_nodes_with_def ingest_edges_with_def arango_run_def determine_collection_mk_node_simps
  Let_def import_bulk_def NODE_COLLECTIONS_def edges_step_def relations_of_def
  edge_order_def EDGE_DEFINITIONS_def

lemma mk_rel_sel:
  "rel_type (mk_rel t s g) = Some t" "rel_source (mk_rel t s g) = Some s"
  "rel_target (mk_rel t s g) = Some g" "rel_pos (mk_rel t s g) = None"
  by (simp_all add: mk_rel_def)

lemma mk_node_sel:
  "n_kind (mk_node k p rs) = Some k" "n_relations (mk_node k p rs) = Some rs"
  "n_parent_qualified_name (mk_node k p rs) = p"
  by (simp_all add: mk_node_def)

lemmas resolve_simps =
  resolve_relation_def resolve_endpoints_def redirect_init_def infer_parent_def truthy_def
  mk_rel_sel mk_node_sel REL_TO_EDGE_COLLECTION_def

lemma ctor_assigned_nodes:
  "fst (ingest_nodes_with 1000 always_ok ctor_assigned_graph)
     = Inr [''m.C'' \<mapsto> ''types'', ''m.C.__init__'' \<mapsto> ''members'', ''m.f'' \<mapsto> ''functions'']"
  by (simp add: ctor_assigned_graph_def run_simps always_ok_def)

lemma map_of_REL_CALLS: "map_of REL_TO_EDGE_COLLECTION ''CALLS'' = Some (Some ''calls'')"
  by (simp add: REL_TO_EDGE_COLLECTION_def)

text \<open>
  Claim C1 as stated fails: when the qname \<open>C.__init__\<close> is in the routing table under a
  node class other than \<open>functions\<close> (here the class body assigns \<open>__init__\<close>, which makes
  it a member), the call edge is emitted with its target under that class, not under
  \<open>functions\<close>.
\<close>

theorem C1_counterexample:
  "fst (ingest_nodes_with 1000 always_ok ctor_assigned_graph)
     = Inr [''m.C'' \<mapsto> ''types'', ''m.C.__init__'' \<mapsto> ''members'', ''m.f'' \<mapsto> ''functions'']
   \<and> snd (snd (arango_run 1000 edge_order always_ok always_ok ctor_assigned_graph))
     = [(''calls'',
         [make_edge_doc (mk_rel ''CALLS'' ''m.f'' ''m.C'') ''calls'' ''CALLS''
            ''m.f'' ''functions'' ''m.C.__init__'' ''members''], True)]
   \<and> e_to (make_edge_doc (mk_rel ''CALLS'' ''m.f'' ''m.C'') ''calls'' ''CALLS''
            ''m.f'' ''functions'' ''m.C.__init__'' ''members'')
     = ''members/'' @ make_key ''m.C.__init__''
   \<and> ''members/'' @ make_key ''m.C.__init__'' \<noteq> ''functions/'' @ make_key ''m.C.__init__''"
proof -
  have e: "snd (snd (arango_run 1000 edge_order always_ok always_ok ctor_assigned_graph))
     = [(''calls'',
         [make_edge_doc (mk_rel ''CALLS'' ''m.f'' ''m.C'') ''calls'' ''CALLS''
            ''m.f'' ''functions'' ''m.C.__init__'' ''members''], True)]"
    by (simp add: ctor_assigned_graph_def run_simps always_ok_def resolve_simps)
  show ?thesis
    by (simp add: ctor_assigned_nodes e make_edge_doc_def)
qed

text \<open>
  Claim C1, amended. For a relation whose type maps to the edge class \<open>calls\<close> and whose
  target is routed to \<open>types\<close>: if \<open>target + ".__init__"\<close> is not in the routing table, no
  edge is emitted; if it is, every emitted edge is a \<open>calls\<close> edge whose target is the
  storage key of \<open>target + ".__init__"\<close> under the node class the routing table gives that
  qname (\<open>functions\<close> when the initializer is a function), and the edge is emitted whenever
  the source is routed too.
\<close>

theorem C1_constructor_redirect:
  assumes "rel_type rel = Some rtype"
    and "map_of REL_TO_EDGE_COLLECTION rtype = Some (Some ''calls'')"
    and "rel_target rel = Some target"
    and "qname_to_coll target = Some ''types''"
  shows "(qname_to_coll (target @ ''.__init__'') = None \<longrightarrow>
            resolve_relation data qname_to_coll rel = None)
       \<and> (\<forall>c ec e. qname_to_coll (target @ ''.__init__'') = Some c \<longrightarrow>
            resolve_relation data qname_to_coll rel = Some (ec, e) \<longrightarrow>
            ec = ''calls'' \<and> e_to e = c @ ''/'' @ make_key (target @ ''.__init__''))
       \<and> (\<forall>c source sc. qname_to_coll (target @ ''.__init__'') = Some c \<longrightarrow> c \<noteq> [] \<longrightarrow>
            rel_source rel = Some source \<longrightarrow> source \<noteq> [] \<longrightarrow> target \<noteq> [] \<longrightarrow>
            qname_to_coll source = Some sc \<longrightarrow> sc \<noteq> [] \<longrightarrow>
            resolve_relation data qname_to_coll rel =
              Some (''calls'',
                make_edge_doc rel ''calls'' rtype source sc (target @ ''.__init__'') c))"
proof (intro conjI allI impI)
  assume "qname_to_coll (target @ ''.__init__'') = None"
  from resolve_endpoints_redirect_none[where rt=qname_to_coll and target=target, OF assms(4) this]
  show "resolve_relation data qname_to_coll rel = None"
    by (simp add: resolve_relation_calls[OF assms(1-3)] split: option.splits)
next
  fix c ec e
  assume c: "qname_to_coll (target @ ''.__init__'') = Some c"
    and r: "resolve_relation data qname_to_coll rel = Some (ec, e)"
  from r show "ec = ''calls''"
    by (auto simp: resolve_relation_calls[OF assms(1-3)]
          resolve_endpoints_redirect_some[where rt=qname_to_coll and target=target, OF assms(4) c] split: option.splits if_splits)
  from r show "e_to e = c @ ''/'' @ make_key (target @ ''.__init__'')"
    by (auto simp: resolve_relation_calls[OF assms(1-3)]
          resolve_endpoints_redirect_some[where rt=qname_to_coll and target=target, OF assms(4) c] make_edge_doc_def
          split: option.splits if_splits)
next
  fix c source sc
  assume c: "qname_to_coll (target @ ''.__init__'') = Some c"
  assume "c \<noteq> []" "rel_source rel = Some source" "source \<noteq> []" "target \<noteq> []"
    "qname_to_coll source = Some sc" "sc \<noteq> []"
  then show "resolve_relation data qname_to_coll rel =
      Some (''calls'', make_edge_doc rel ''calls'' rtype source sc (target @ ''.__init__'') c)"
    by (simp add: resolve_relation_calls[OF assms(1-3)]
          resolve_endpoints_redirect_some[where rt=qname_to_coll and target=target, OF assms(4) c])
qed

text \<open>A call of the class \<open>m.C\<close> whose initializer is a function.\<close>

theorem C1_constructor_redirect_witness:
  "rel_type (mk_rel ''CALLS'' ''m.f'' ''m.C'') = Some ''CALLS''
   \<and> map_of REL_TO_EDGE_COLLECTION ''CALLS'' = Some (Some ''calls'')
   \<and> rel_target (mk_rel ''CALLS'' ''m.f'' ''m.C'') = Some ''m.C''
   \<and> [''m.C'' \<mapsto> ''types'', ''m.C.__init__'' \<mapsto> ''functions'', ''m.f'' \<mapsto> ''functions''] ''m.C''
        = Some ''types''
   \<and> resolve_relation []
        [''m.C'' \<mapsto> ''types'', ''m.C.__init__'' \<mapsto> ''functions'', ''m.f'' \<mapsto> ''functions'']
        (mk_rel ''CALLS'' ''m.f'' ''m.C'')
      = Some (''calls'', make_edge_doc (mk_rel ''CALLS'' ''m.f'' ''m.C'') ''calls'' ''CALLS''
                ''m.f'' ''functions'' ''m.C.__init__'' ''functions'')
   \<and> e_to (make_edge_doc (mk_rel ''CALLS'' ''m.f'' ''m.C'') ''calls'' ''CALLS''
                ''m.f'' ''functions'' ''m.C.__init__'' ''functions'')
      = ''functions/'' @ make_key ''m.C.__init__''"
proof -
  let ?rt = "[''m.C'' \<mapsto> ''types'', ''m.C.__init__'' \<mapsto> ''functions'', ''m.f'' \<mapsto> ''functions'']"
  have a: "rel_type (mk_rel ''CALLS'' ''m.f'' ''m.C'') = Some ''CALLS''"
    and b: "rel_target (mk_rel ''CALLS'' ''m.f'' ''m.C'') = Some ''m.C''"
    and s: "rel_source (mk_rel ''CALLS'' ''m.f'' ''m.C'') = Some ''m.f''"
    by (simp_all add: mk_rel_def)
  have t: "?rt ''m.C'' = Some ''types''" by simp
  note th = C1_constructor_redirect[where qname_to_coll="?rt" and target="''m.C''" and data="[]",
      OF a map_of_REL_CALLS b t]
  have i: "?rt (''m.C'' @ ''.__init__'') = Some ''functions''" by simp
  have f: "?rt ''m.f'' = Some ''functions''" by simp
  have r: "resolve_relation [] ?rt (mk_rel ''CALLS'' ''m.f'' ''m.C'')
      = Some (''calls'', make_edge_doc (mk_rel ''CALLS'' ''m.f'' ''m.C'') ''calls'' ''CALLS''
                ''m.f'' ''functions'' (''m.C'' @ ''.__init__'') ''functions'')"
    by (rule th[THEN conjunct2, THEN conjunct2, rule_format, OF i _ s _ _ f]) simp_all
  have e: "e_to (make_edge_doc (mk_rel ''CALLS'' ''m.f'' ''m.C'') ''calls'' ''CALLS''
                ''m.f'' ''functions'' ''m.C.__init__'' ''functions'')
      = ''functions/'' @ make_key ''m.C.__init__''"
    by (simp add: make_edge_doc_def)
  from r have r': "resolve_relation [] ?rt (mk_rel ''CALLS'' ''m.f'' ''m.C'')
      = Some (''calls'', make_edge_doc (mk_rel ''CALLS'' ''m.f'' ''m.C'') ''calls'' ''CALLS''
                ''m.f'' ''functions'' ''m.C.__init__'' ''functions'')"
    by simp
  from a map_of_REL_CALLS b t r' e show ?thesis
    by (intro conjI)
qed

subsection \<open>Node classes of the endpoints of an edge\<close>








subsection \<open>A failed flush\<close>

text \<open>
  Claim C3 does not hold for the node collections: a failed bulk import of \<open>functions\<close>
  raises out of \<open>ingest_nodes\<close>. The batch for \<open>types\<close> is never sent and the edge phase
  never runs, although there are a class document and a call edge to deliver. The same
  failure in \<open>ingest_edges\<close> is caught: the call is recorded as failed and the function
  returns.
\<close>

theorem C3_node_flush_failure:
  "arango_run 1000 edge_order reject_functions always_ok call_graph
     = (Inl BulkImportError,
        [(''functions'', classified_docs call_graph call_graph ''functions'', False)],
        [])
   \<and> classified_docs call_graph call_graph ''types''
     = [make_node_doc call_graph ''m.C'' (mk_node ''class'' (Some ''m'') []) ''types'']
   \<and> resolved_edges call_graph (routing_of call_graph) (all_relations call_graph) ''calls''
     = [make_edge_doc (mk_rel ''CALLS'' ''m.f'' ''m.g'') ''calls'' ''CALLS''
          ''m.f'' ''functions'' ''m.g'' ''functions'']
   \<and> ingest_edges_with 1000 edge_order reject_all call_graph (routing_of call_graph)
     = [(''calls'',
         [make_edge_doc (mk_rel ''CALLS'' ''m.f'' ''m.g'') ''calls'' ''CALLS''
            ''m.f'' ''functions'' ''m.g'' ''functions''], False)]"
proof -
  have r: "routing_of call_graph
      = (\<lambda>q. if q = ''m.f'' then Some ''functions'' else if q = ''m.g'' then Some ''functions''
              else if q = ''m.C'' then Some ''types'' else None)"
    by (rule ext) (simp add: routing_of_def call_graph_def determine_collection_mk_node_simps)
  have a: "arango_run 1000 edge_order reject_functions always_ok call_graph
     = (Inl BulkImportError,
        [(''functions'', classified_docs call_graph call_graph ''functions'', False)],
        [])"
    by (simp add: call_graph_def run_simps reject_functions_def classified_docs_def)
  have b: "classified_docs call_graph call_graph ''types''
     = [make_node_doc call_graph ''m.C'' (mk_node ''class'' (Some ''m'') []) ''types'']"
    by (simp add: classified_docs_def determine_collection_mk_node_simps)
       (simp add: call_graph_def determine_collection_mk_node_simps)
  have c: "resolved_edges call_graph (routing_of call_graph) (all_relations call_graph) ''calls''
     = [make_edge_doc (mk_rel ''CALLS'' ''m.f'' ''m.g'') ''calls'' ''CALLS''
          ''m.f'' ''functions'' ''m.g'' ''functions'']"
    unfolding r
    by (simp add: call_graph_def resolved_edges_def all_relations_def relations_of_def resolve_simps)
  have d: "ingest_edges_with 1000 edge_order reject_all call_graph (routing_of call_graph)
     = [(''calls'',
         [make_edge_doc (mk_rel ''CALLS'' ''m.f'' ''m.g'') ''calls'' ''CALLS''
            ''m.f'' ''functions'' ''m.g'' ''functions''], False)]"
    unfolding r
    by (simp add: call_graph_def run_simps reject_all_def resolve_simps)
  from a b c d show ?thesis by (intro conjI)
qed

subsection \<open>Every document is delivered once\<close>

lemma dest_always_ok:
  assumes "\<forall>h c b. dest h c b"
  shows "dest = always_ok"
  using assms by (intro ext) (simp add: always_ok_def)

lemma ingest_documents_complete:
  "\<exists>h. ingest_documents_with B always_ok data cn = (length (indexed_docs data), h)
       \<and> delivered h cn = indexed_docs data"
proof -
  obtain tot h where r: "ingest_documents_with B always_ok data cn = (tot, h)"
    by (cases "ingest_documents_with B always_ok data cn")
  from ingest_documents_attempted[OF r]
  have a: "attempted h cn = indexed_docs data" and t: "tot = length (delivered h cn)"
    by simp_all
  from ingest_documents_all_ok[OF r] have "delivered h cn = attempted h cn"
    by (rule all_ok_delivered)
  with a t r show ?thesis by simp
qed

lemma three_functions_classified:
  "length (classified_docs three_functions three_functions ''functions'') = 3"
  by (simp add: classified_docs_def)
     (simp add: three_functions_def determine_collection_mk_node_simps)

lemma three_functions_indexed: "length (indexed_docs three_functions) = 3"
  by (simp add: indexed_docs_def)
     (simp add: three_functions_def should_index_def mk_node_def INDEXABLE_KINDS_def)

lemma three_functions_resolved:
  "length (resolved_edges three_functions (routing_of three_functions)
             (all_relations three_functions) ''calls'') = 3"
proof -
  have r: "routing_of three_functions
      = (\<lambda>q. if q = ''m.a'' then Some ''functions'' else if q = ''m.b'' then Some ''functions''
              else if q = ''m.c'' then Some ''functions'' else None)"
    by (rule ext) (simp add: routing_of_def three_functions_def determine_collection_mk_node_simps)
  show ?thesis
    unfolding r
    by (simp add: three_functions_def resolved_edges_def all_relations_def relations_of_def
          resolve_simps)
qed

text \<open>
  Claim C4. When every flush succeeds, then for every input, every batch threshold and every
  destination collection the documents delivered to the collection are exactly the
  documents classified, resolved or indexed into it, each once and in input order: the
  node phase returns, and the count returned by the search phase is their number.
\<close>

theorem C4_batch_completeness:
  assumes "\<forall>h c b. ndest h c b" and "\<forall>h c b. edest h c b" and "\<forall>h c b. sdest h c b"
    and "distinct order" and "set order = edge_collections"
  shows "(\<exists>rt hn. ingest_nodes_with B ndest data = (Inr rt, hn)
            \<and> (\<forall>c. delivered hn c = classified_docs data data c))
     \<and> (\<forall>rt c. delivered (ingest_edges_with B order edest data rt) c
                  = resolved_edges data rt (all_relations data) c)
     \<and> (\<exists>h. ingest_documents_with B sdest data cn = (length (indexed_docs data), h)
            \<and> delivered h cn = indexed_docs data)"
proof (intro conjI)
  from assms(1) have n: "\<And>h c b. ndest h c b" by simp
  from ingest_nodes_ok[of ndest B data, OF n] obtain rt hn where
    r: "ingest_nodes_with B ndest data = (Inr rt, hn)" and ok: "\<forall>x\<in>set hn. snd (snd x)"
    by auto
  have "\<forall>c. delivered hn c = classified_docs data data c"
    using all_ok_delivered[OF ok] ingest_nodes_inv[OF r] by simp
  with r show "\<exists>rt hn. ingest_nodes_with B ndest data = (Inr rt, hn)
            \<and> (\<forall>c. delivered hn c = classified_docs data data c)"
    by blast
next
  from assms(2) have e: "\<And>h c b. edest h c b" by simp
  show "\<forall>rt c. delivered (ingest_edges_with B order edest data rt) c
                  = resolved_edges data rt (all_relations data) c"
  proof (intro allI)
    fix rt c
    from ingest_edges_ok[of edest B order data rt, OF e]
    have "delivered (ingest_edges_with B order edest data rt) c
        = attempted (ingest_edges_with B order edest data rt) c"
      by (rule all_ok_delivered)
    then show "delivered (ingest_edges_with B order edest data rt) c
        = resolved_edges data rt (all_relations data) c"
      by (simp only: ingest_edges_attempted[OF assms(4,5)])
  qed
next
  from dest_always_ok[OF assms(3)] have "sdest = always_ok" .
  then show "\<exists>h. ingest_documents_with B sdest data cn = (length (indexed_docs data), h)
            \<and> delivered h cn = indexed_docs data"
    using ingest_documents_complete[of B data cn] by simp
qed

text \<open>Three functions with three calls and a threshold of two: one full batch and a rest.\<close>

theorem C4_batch_completeness_witness:
  "(\<forall>h c b. (always_ok :: node_doc dest) h c b)
   \<and> (\<forall>h c b. (always_ok :: edge_doc dest) h c b)
   \<and> (\<forall>h c b. (always_ok :: search_doc dest) h c b)
   \<and> distinct edge_order \<and> set edge_order = edge_collections
   \<and> fst (ingest_nodes_with 2 always_ok three_functions) = Inr (routing_of three_functions)
   \<and> length (delivered (snd (ingest_nodes_with 2 always_ok three_functions)) ''functions'') = 3
   \<and> length (delivered (ingest_edges_with 2 edge_order always_ok three_functions
                (routing_of three_functions)) ''calls'') = 3
   \<and> fst (ingest_documents_with 2 always_ok three_functions ''code_nodes'') = 3
   \<and> length (delivered (snd (ingest_documents_with 2 always_ok three_functions ''code_nodes''))
        ''code_nodes'') = 3"
proof -
  have n: "\<forall>h c b. (always_ok :: node_doc dest) h c b"
    and e: "\<forall>h c b. (always_ok :: edge_doc dest) h c b"
    and s: "\<forall>h c b. (always_ok :: search_doc dest) h c b"
    by (simp_all add: always_ok_True)
  note th = C4_batch_completeness[OF n e s edge_order_ok, of 2 three_functions "''code_nodes''"]
  from th obtain rt hn where
    r: "ingest_nodes_with 2 always_ok three_functions = (Inr rt, hn)"
    and dn: "\<forall>c. delivered hn c = classified_docs three_functions three_functions c"
    by blast
  have d: "distinct (map fst three_functions)" by (simp add: three_functions_def)
  from ingest_nodes_routing[OF r d] r
  have c1: "fst (ingest_nodes_with 2 always_ok three_functions) = Inr (routing_of three_functions)"
    by simp
  from r dn three_functions_classified
  have c2: "length (delivered (snd (ingest_nodes_with 2 always_ok three_functions)) ''functions'') = 3"
    by simp
  from th have "\<forall>rt c. delivered (ingest_edges_with 2 edge_order always_ok three_functions rt) c
                  = resolved_edges three_functions rt (all_relations three_functions) c"
    by blast
  with three_functions_resolved
  have c3: "length (delivered (ingest_edges_with 2 edge_order always_ok three_functions
                (routing_of three_functions)) ''calls'') = 3"
    by simp
  from th obtain h where
    "ingest_documents_with 2 always_ok three_functions ''code_nodes''
       = (length (indexed_docs three_functions), h)"
    "delivered h ''code_nodes'' = indexed_docs three_functions"
    by blast
  with three_functions_indexed
  have c4: "fst (ingest_documents_with 2 always_ok three_functions ''code_nodes'') = 3"
    and c5: "length (delivered (snd (ingest_documents_with 2 always_ok three_functions ''code_nodes''))
        ''code_nodes'') = 3"
    by simp_all
  from n e s edge_order_ok c1 c2 c3 c4 c5 show ?thesis by (intro conjI)
qed

subsection \<open>Storage keys do not depend on the order of the input\<close>

lemma map_of_permuted:
  assumes "distinct (map fst data)" "distinct (map fst data')" "set data' = set data"
  shows "map_of data' = map_of data"
  using assms by (simp add: map_of_inject_set)

lemma make_node_doc_cong:
  assumes m: "map_of data' = map_of data"
  shows "make_node_doc data' q nd c = make_node_doc data q nd c"
  unfolding make_node_doc_def is_method_def m ..

lemma resolve_relation_cong:
  assumes m: "map_of data' = map_of data"
  shows "resolve_relation data' rt rel = resolve_relation data rt rel"
  unfolding resolve_relation_def resolve_endpoints_def infer_parent_def m ..

lemma routing_of_cong:
  assumes m: "map_of data' = map_of data"
  shows "routing_of data' = routing_of data"
  unfolding routing_of_def m ..

lemma set_classified_docs_permuted:
  assumes m: "map_of data' = map_of data" and s: "set data' = set data"
  shows "set (classified_docs data' data' c) = set (classified_docs data data c)"
proof -
  have f: "(\<lambda>(q, nd). make_node_doc data' q nd c) = (\<lambda>(q, nd). make_node_doc data q nd c)"
    by (simp add: make_node_doc_cong[OF m])
  show ?thesis
    unfolding classified_docs_def f by (simp add: s)
qed

lemma set_all_relations:
  "set (all_relations items) = (\<Union>x\<in>set items. set (relations_of (snd x)))"
  by (simp add: all_relations_def case_prod_beta)

lemma set_resolved_edges_permuted:
  assumes m: "map_of data' = map_of data" and s: "set data' = set data"
  shows "set (resolved_edges data' rt (all_relations data') c)
       = set (resolved_edges data rt (all_relations data) c)"
proof -
  have r: "set (all_relations data') = set (all_relations data)"
    by (simp add: set_all_relations s)
  have g: "resolve_relation data' rt = resolve_relation data rt"
    by (intro ext) (rule resolve_relation_cong[OF m])
  show ?thesis
    unfolding resolved_edges_def g by (simp add: r)
qed

lemma arango_run_Inr:
  assumes "arango_run B order ndest edest data = (Inr (), hn, he)"
  shows "\<exists>rt. ingest_nodes_with B ndest data = (Inr rt, hn)
            \<and> he = ingest_edges_with B order edest data rt"
proof -
  obtain r h where n: "ingest_nodes_with B ndest data = (r, h)"
    by (cases "ingest_nodes_with B ndest data")
  show ?thesis
  proof (cases r)
    case (Inl x)
    with assms n show ?thesis by (simp add: arango_run_def)
  next
    case (Inr rt)
    with assms n show ?thesis by (simp add: arango_run_def)
  qed
qed

lemma d_key_classified:
  "d \<in> set (classified_docs data items c) \<Longrightarrow> d_key d = make_key (d_qname d)"
  by (auto simp: classified_docs_def make_node_doc_def)

lemma three_functions_run:
  "fst (arango_run 2 edge_order always_ok always_ok three_functions) = Inr ()"
  by (simp add: three_functions_def run_simps always_ok_def)

lemma three_functions_rev_run:
  "fst (arango_run 1000 (rev edge_order) always_ok always_ok (rev three_functions)) = Inr ()"
  by (simp add: three_functions_def run_simps always_ok_def)

text \<open>
  Claim C5. The storage keys are functions of strings alone: the key of a node document is
  \<open>make_key\<close> of its qname, the key of an edge document is \<open>make_key\<close> of source, resolved
  target and relation type joined by colons. Two runs that complete, on the same entities
  visited in any two orders (with any batch thresholds, any order of the final edge flush
  and any destinations), send the same set of node keys and the same set of edge keys.
\<close>

theorem C5_key_determinism:
  assumes "distinct (map fst data)" and "distinct (map fst data')" and "set data' = set data"
    and "distinct order" and "set order = edge_collections"
    and "distinct order'" and "set order' = edge_collections"
    and "arango_run B order ndest edest data = (Inr (), hn, he)"
    and "arango_run B' order' ndest' edest' data' = (Inr (), hn', he')"
  shows "node_keys hn' = node_keys hn
     \<and> edge_keys he' = edge_keys he
     \<and> (\<forall>d\<in>set (sent hn). d_key d = make_key (d_qname d))
     \<and> (\<forall>e\<in>set (sent he). \<exists>rel\<in>set (all_relations data). \<exists>rtype source target.
           rel_type rel = Some rtype \<and> rel_source rel = Some source
           \<and> (rel_target rel = Some target
                \<or> (\<exists>t0. rel_target rel = Some t0 \<and> target = t0 @ ''.__init__''))
           \<and> e_key e = make_key (source @ '':'' @ target @ '':'' @ rtype))"
proof -
  from map_of_permuted[OF assms(1,2,3)] have m: "map_of data' = map_of data" .
  from arango_run_Inr[OF assms(8)] obtain rt where
    n: "ingest_nodes_with B ndest data = (Inr rt, hn)"
    and e: "he = ingest_edges_with B order edest data rt" by auto
  from arango_run_Inr[OF assms(9)] obtain rt' where
    n': "ingest_nodes_with B' ndest' data' = (Inr rt', hn')"
    and e': "he' = ingest_edges_with B' order' edest' data' rt'" by auto
  have rt: "rt = routing_of data" by (rule ingest_nodes_routing[OF n assms(1)])
  have rt': "rt' = routing_of data" 
    using ingest_nodes_routing[OF n' assms(2)] routing_of_cong[OF m] by simp
  have sn: "set (sent hn) = (\<Union>c. set (classified_docs data data c))"
    by (simp add: set_sent ingest_nodes_inv[OF n])
  have sn': "set (sent hn') = (\<Union>c. set (classified_docs data data c))"
    by (simp add: set_sent ingest_nodes_inv[OF n'] set_classified_docs_permuted[OF m assms(3)])
  have se: "set (sent he) = (\<Union>c. set (resolved_edges data rt (all_relations data) c))"
    by (simp add: set_sent e ingest_edges_attempted[OF assms(4,5)])
  have se': "set (sent he') = (\<Union>c. set (resolved_edges data rt (all_relations data) c))"
    by (simp add: set_sent e' rt rt' ingest_edges_attempted[OF assms(6,7)]
          set_resolved_edges_permuted[OF m assms(3)])
  have k1: "node_keys hn' = node_keys hn"
    by (simp add: node_keys_def sn sn')
  have k2: "edge_keys he' = edge_keys he"
    by (simp add: edge_keys_def se se')
  have k3: "\<forall>d\<in>set (sent hn). d_key d = make_key (d_qname d)"
  proof
    fix d assume "d \<in> set (sent hn)"
    then obtain c where "d \<in> set (classified_docs data data c)" unfolding sn by auto
    then show "d_key d = make_key (d_qname d)" by (rule d_key_classified)
  qed
  have k4: "\<forall>e\<in>set (sent he). \<exists>rel\<in>set (all_relations data). \<exists>rtype source target.
           rel_type rel = Some rtype \<and> rel_source rel = Some source
           \<and> (rel_target rel = Some target
                \<or> (\<exists>t0. rel_target rel = Some t0 \<and> target = t0 @ ''.__init__''))
           \<and> e_key e = make_key (source @ '':'' @ target @ '':'' @ rtype)"
  proof
    fix x assume "x \<in> set (sent he)"
    then obtain c where "x \<in> set (resolved_edges data rt (all_relations data) c)"
      unfolding se by auto
    then obtain rel where rel: "rel \<in> set (all_relations data)"
      and r: "resolve_relation data rt rel = Some (c, x)"
      unfolding in_resolved_edges by auto
    from resolve_relation_shape[OF r] obtain rtype source t0 target sc tc where
      s: "rel_type rel = Some rtype" "rel_source rel = Some source" "rel_target rel = Some t0"
         "x = make_edge_doc rel c rtype source sc target tc"
         "target = t0 \<or> c = ''calls'' \<and> rt t0 = Some ''types'' \<and> target = t0 @ ''.__init__''"
      by blast
    from s(4) have k: "e_key x = make_key (source @ '':'' @ target @ '':'' @ rtype)"
      by (simp add: make_edge_doc_def)
    from s(3,5) have t: "rel_target rel = Some target
        \<or> (\<exists>t0. rel_target rel = Some t0 \<and> target = t0 @ ''.__init__'')"
      by auto
    from rel s(1,2) t k
    show "\<exists>rel\<in>set (all_relations data). \<exists>rtype source target.
           rel_type rel = Some rtype \<and> rel_source rel = Some source
           \<and> (rel_target rel = Some target
                \<or> (\<exists>t0. rel_target rel = Some t0 \<and> target = t0 @ ''.__init__''))
           \<and> e_key x = make_key (source @ '':'' @ target @ '':'' @ rtype)"
      by blast
  qed
  from k1 k2 k3 k4 show ?thesis by (intro conjI)
qed

text \<open>The three functions, visited forwards with threshold 2 and backwards with threshold 1000.\<close>

theorem C5_key_determinism_witness:
  "distinct (map fst three_functions) \<and> distinct (map fst (rev three_functions))
   \<and> set (rev three_functions) = set three_functions
   \<and> distinct edge_order \<and> set edge_order = edge_collections
   \<and> distinct (rev edge_order) \<and> set (rev edge_order) = edge_collections
   \<and> fst (arango_run 2 edge_order always_ok always_ok three_functions) = Inr ()
   \<and> fst (arango_run 1000 (rev edge_order) always_ok always_ok (rev three_functions)) = Inr ()
   \<and> node_keys (fst (snd (arango_run 1000 (rev edge_order) always_ok always_ok (rev three_functions))))
       = node_keys (fst (snd (arango_run 2 edge_order always_ok always_ok three_functions)))
   \<and> edge_keys (snd (snd (arango_run 1000 (rev edge_order) always_ok always_ok (rev three_functions))))
       = edge_keys (snd (snd (arango_run 2 edge_order always_ok always_ok three_functions)))"
proof -
  have d: "distinct (map fst three_functions)" by (simp add: three_functions_def)
  have d': "distinct (map fst (rev three_functions))" by (simp add: three_functions_def)
  have s: "set (rev three_functions) = set three_functions" by simp
  have o: "distinct (rev edge_order)" "set (rev edge_order) = edge_collections"
    using edge_order_ok by simp_all
  have r: "arango_run 2 edge_order always_ok always_ok three_functions
      = (Inr (), fst (snd (arango_run 2 edge_order always_ok always_ok three_functions)),
         snd (snd (arango_run 2 edge_order always_ok always_ok three_functions)))"
    using three_functions_run by (simp add: prod_eq_iff)
  have r': "arango_run 1000 (rev edge_order) always_ok always_ok (rev three_functions)
      = (Inr (), fst (snd (arango_run 1000 (rev edge_order) always_ok always_ok (rev three_functions))),
         snd (snd (arango_run 1000 (rev edge_order) always_ok always_ok (rev three_functions))))"
    using three_functions_rev_run by (simp add: prod_eq_iff)
  note th = C5_key_determinism[OF d d' s edge_order_ok o r r']
  from th have k1: "node_keys (fst (snd (arango_run 1000 (rev edge_order) always_ok always_ok (rev three_functions))))
       = node_keys (fst (snd (arango_run 2 edge_order always_ok always_ok three_functions)))"
    by (rule conjunct1)
  from th have k2: "edge_keys (snd (snd (arango_run 1000 (rev edge_order) always_ok always_ok (rev three_functions))))
       = edge_keys (snd (snd (arango_run 2 edge_order always_ok always_ok three_functions)))"
    by (rule conjunct2[THEN conjunct1])
  from d d' s edge_order_ok o three_functions_run three_functions_rev_run k1 k2
  show ?thesis by (intro conjI)
qed

end
